theory Spec2Isabelle
  imports Main "HOL-Library.Word"
begin

unbundle bit_operations_syntax

section \<open>Machine integers and byte order\<close>

text \<open>
  The codec of \<^verbatim>\<open>message.c\<close> works on \<^verbatim>\<open>uint8_t\<close>, \<^verbatim>\<open>uint16_t\<close> and \<^verbatim>\<open>uint32_t\<close> values and
  moves them between typed variables and byte buffers with \<^verbatim>\<open>memcpy\<close> and pointer casts.
  What such a move yields depends on the byte order of the host, so the host's byte order
  is a parameter of the model: every result below holds on both kinds of host.
  \<^verbatim>\<open>int32_t\<close> fields are kept as 32-bit words (\<open>sint\<close> reads them); \<^verbatim>\<open>htonl\<close> on them is
  the same permutation of bytes.
\<close>

type_synonym uint8_t = "8 word"
type_synonym uint16_t = "16 word"
type_synonym uint32_t = "32 word"

datatype endianness = LittleEndian | BigEndian

text \<open>The big-endian (network order) encodings, most significant byte first.\<close>

definition be16 :: "uint16_t \<Rightarrow> uint8_t list" where
  "be16 w = [ucast (drop_bit 8 w), ucast w]"

definition be32 :: "uint32_t \<Rightarrow> uint8_t list" where
  "be32 w = [ucast (drop_bit 24 w), ucast (drop_bit 16 w), ucast (drop_bit 8 w), ucast w]"

definition be16_decode :: "uint8_t \<Rightarrow> uint8_t \<Rightarrow> uint16_t" where
  "be16_decode a b = push_bit 8 (ucast a) OR ucast b"

definition be32_decode :: "uint8_t \<Rightarrow> uint8_t \<Rightarrow> uint8_t \<Rightarrow> uint8_t \<Rightarrow> uint32_t" where
  "be32_decode a b c d =
     push_bit 24 (ucast a) OR push_bit 16 (ucast b) OR push_bit 8 (ucast c) OR ucast d"

text \<open>
  The object representation of a variable in host memory: what \<^verbatim>\<open>(uint8_t*) &v\<close> points to,
  and what a \<^verbatim>\<open>memcpy\<close> into \<^verbatim>\<open>&v\<close> builds.
\<close>

definition bytes_of_uint16 :: "endianness \<Rightarrow> uint16_t \<Rightarrow> uint8_t list" where
  "bytes_of_uint16 e w = (case e of BigEndian \<Rightarrow> be16 w | LittleEndian \<Rightarrow> rev (be16 w))"

definition bytes_of_uint32 :: "endianness \<Rightarrow> uint32_t \<Rightarrow> uint8_t list" where
  "bytes_of_uint32 e w = (case e of BigEndian \<Rightarrow> be32 w | LittleEndian \<Rightarrow> rev (be32 w))"

definition uint16_of_bytes :: "endianness \<Rightarrow> uint8_t list \<Rightarrow> uint16_t" where
  "uint16_of_bytes e bs =
     (case e of BigEndian \<Rightarrow> be16_decode (bs ! 0) (bs ! 1)
              | LittleEndian \<Rightarrow> be16_decode (bs ! 1) (bs ! 0))"

definition uint32_of_bytes :: "endianness \<Rightarrow> uint8_t list \<Rightarrow> uint32_t" where
  "uint32_of_bytes e bs =
     (case e of BigEndian \<Rightarrow> be32_decode (bs ! 0) (bs ! 1) (bs ! 2) (bs ! 3)
              | LittleEndian \<Rightarrow> be32_decode (bs ! 3) (bs ! 2) (bs ! 1) (bs ! 0))"

text \<open>
  \<^verbatim>\<open>htons\<close>, \<^verbatim>\<open>ntohs\<close>, \<^verbatim>\<open>htonl\<close>, \<^verbatim>\<open>ntohl\<close> of \<^verbatim>\<open><arpa/inet.h>\<close>: the identity on a big-endian
  host, a byte swap on a little-endian one.
\<close>

definition bswap16 :: "uint16_t \<Rightarrow> uint16_t" where
  "bswap16 w = be16_decode (ucast w) (ucast (drop_bit 8 w))"

definition bswap32 :: "uint32_t \<Rightarrow> uint32_t" where
  "bswap32 w =
     be32_decode (ucast w) (ucast (drop_bit 8 w)) (ucast (drop_bit 16 w)) (ucast (drop_bit 24 w))"

definition htons :: "endianness \<Rightarrow> uint16_t \<Rightarrow> uint16_t" where
  "htons e w = (case e of BigEndian \<Rightarrow> w | LittleEndian \<Rightarrow> bswap16 w)"

definition ntohs :: "endianness \<Rightarrow> uint16_t \<Rightarrow> uint16_t" where
  "ntohs e w = (case e of BigEndian \<Rightarrow> w | LittleEndian \<Rightarrow> bswap16 w)"

definition htonl :: "endianness \<Rightarrow> uint32_t \<Rightarrow> uint32_t" where
  "htonl e w = (case e of BigEndian \<Rightarrow> w | LittleEndian \<Rightarrow> bswap32 w)"

definition ntohl :: "endianness \<Rightarrow> uint32_t \<Rightarrow> uint32_t" where
  "ntohl e w = (case e of BigEndian \<Rightarrow> w | LittleEndian \<Rightarrow> bswap32 w)"

text \<open>\<^verbatim>\<open>memcpy(dst + off, src, n)\<close> on a destination buffer held as a list of bytes.\<close>

definition memcpy :: "uint8_t list \<Rightarrow> nat \<Rightarrow> uint8_t list \<Rightarrow> uint8_t list" where
  "memcpy dst off src = take off dst @ src @ drop (off + length src) dst"

text \<open>
  \<^verbatim>\<open>memcmp(a, b, n)\<close>: the sign of the first difference among the first \<open>n\<close> bytes, which
  are compared as unsigned bytes; callers make sure both buffers hold \<open>n\<close> bytes.
\<close>

fun memcmp :: "uint8_t list \<Rightarrow> uint8_t list \<Rightarrow> nat \<Rightarrow> int" where
  "memcmp (a # as) (b # bs) (Suc n) =
     (if a = b then memcmp as bs n else if a < b then - 1 else 1)"
| "memcmp _ _ _ = 0"

section \<open>The data model of message.h\<close>

definition MAX_TLV_COUNT :: nat where
  "MAX_TLV_COUNT = 25"

text \<open>The tags of \<^verbatim>\<open>tlv_type_t\<close> that the functions of \<^verbatim>\<open>message.c\<close> use, as wire bytes.\<close>

definition TLV_COMMAND :: uint8_t where "TLV_COMMAND = 1"
definition TLV_REPLY :: uint8_t where "TLV_REPLY = 2"
definition TLV_CHECKSUM :: uint8_t where "TLV_CHECKSUM = 3"
definition TLV_MOTOR_POSITION :: uint8_t where "TLV_MOTOR_POSITION = 4"
definition TLV_CURRENT_READING :: uint8_t where "TLV_CURRENT_READING = 5"

datatype message_result_t =
    MESSAGE_SUCCESS
  | MESSAGE_ERROR_TOO_MANY_TLVS
  | MESSAGE_ERROR_OUT_OF_MEMORY
  | MESSAGE_ERROR_BUFFER_TOO_SMALL
  | MESSAGE_ERROR_PARSE_ERROR
  | MESSAGE_ERROR_CHECKSUM_MISMATCH
  | MESSAGE_ERROR_TLV_NOT_FOUND

text \<open>The integer values of the enumeration, which \<^verbatim>\<open>message_serialize\<close> returns as \<^verbatim>\<open>ssize_t\<close>.\<close>

fun message_result_code :: "message_result_t \<Rightarrow> int" where
  "message_result_code MESSAGE_SUCCESS = 0"
| "message_result_code MESSAGE_ERROR_TOO_MANY_TLVS = - 1"
| "message_result_code MESSAGE_ERROR_OUT_OF_MEMORY = - 2"
| "message_result_code MESSAGE_ERROR_BUFFER_TOO_SMALL = - 3"
| "message_result_code MESSAGE_ERROR_PARSE_ERROR = - 4"
| "message_result_code MESSAGE_ERROR_CHECKSUM_MISMATCH = - 5"
| "message_result_code MESSAGE_ERROR_TLV_NOT_FOUND = - 6"

text \<open>
  \<^verbatim>\<open>tlv_t\<close>: the \<^verbatim>\<open>value\<close> pointer is \<open>None\<close> when it is \<^verbatim>\<open>NULL\<close> and otherwise holds the
  contents of the heap buffer it points to. Every buffer comes from its own \<^verbatim>\<open>malloc\<close>
  and is written once, so buffers are never shared and holding the contents in the record
  loses nothing the functions below can observe.
\<close>

record tlv_t =
  tlv_type :: uint8_t
  tlv_length :: uint16_t
  tlv_value :: "uint8_t list option"

text \<open>\<^verbatim>\<open>message_t\<close>: the record count and the array of \<^verbatim>\<open>MAX_TLV_COUNT\<close> slots.\<close>

record message_t =
  msg_length :: nat
  msg_tlv :: "tlv_t list"

text \<open>
  Two ways a call can end without returning: a failed \<^verbatim>\<open>assert\<close> (assertions are taken as
  compiled in), and a read beyond the end of a buffer, which C leaves undefined.
\<close>

datatype fault = AssertionFailed | InvalidRead

definition buffer :: "uint8_t list option \<Rightarrow> uint8_t list" where
  "buffer p = (case p of None \<Rightarrow> [] | Some bs \<Rightarrow> bs)"

text \<open>The bytes that a read of \<^verbatim>\<open>tlv[i].length\<close> bytes from \<^verbatim>\<open>tlv[i].value\<close> sees.\<close>

definition tlv_bytes :: "tlv_t \<Rightarrow> uint8_t list" where
  "tlv_bytes t = take (unat (tlv_length t)) (buffer (tlv_value t))"

text \<open>
  A record is well formed when its buffer exists and has the declared length; a message is
  well formed when it has its \<^verbatim>\<open>MAX_TLV_COUNT\<close> slots, the count is within them, and the
  counted records are well formed. The reads of the functions below stay inside their
  buffers exactly for such messages.
\<close>

definition tlv_valid :: "tlv_t \<Rightarrow> bool" where
  "tlv_valid t =
     (case tlv_value t of None \<Rightarrow> False | Some bs \<Rightarrow> length bs = unat (tlv_length t))"

definition records :: "message_t \<Rightarrow> tlv_t list" where
  "records m = take (msg_length m) (msg_tlv m)"

definition message_valid :: "message_t \<Rightarrow> bool" where
  "message_valid m =
     (length (msg_tlv m) = MAX_TLV_COUNT \<and> msg_length m \<le> MAX_TLV_COUNT
      \<and> list_all tlv_valid (records m))"

section \<open>message.c\<close>

subsection \<open>message_init, message_free\<close>

definition zero_tlv :: tlv_t where
  "zero_tlv = \<lparr>tlv_type = 0, tlv_length = 0, tlv_value = None\<rparr>"

text \<open>\<^verbatim>\<open>memset(message, 0, sizeof(message_t))\<close>; the function always returns \<^verbatim>\<open>MESSAGE_SUCCESS\<close>.\<close>

definition message_init :: message_t where
  "message_init = \<lparr>msg_length = 0, msg_tlv = replicate MAX_TLV_COUNT zero_tlv\<rparr>"

text \<open>Frees the counted buffers (the heap is not part of the model) and resets the message.\<close>

definition message_free :: "message_t \<Rightarrow> message_t" where
  "message_free message = message_init"

text \<open>Assignments to the fields of slot \<open>i\<close>.\<close>

definition set_tlv_type :: "message_t \<Rightarrow> nat \<Rightarrow> uint8_t \<Rightarrow> message_t" where
  "set_tlv_type m i v = m\<lparr>msg_tlv := (msg_tlv m)[i := (msg_tlv m ! i)\<lparr>tlv_type := v\<rparr>]\<rparr>"

definition set_tlv_length :: "message_t \<Rightarrow> nat \<Rightarrow> uint16_t \<Rightarrow> message_t" where
  "set_tlv_length m i v = m\<lparr>msg_tlv := (msg_tlv m)[i := (msg_tlv m ! i)\<lparr>tlv_length := v\<rparr>]\<rparr>"

definition set_tlv_value :: "message_t \<Rightarrow> nat \<Rightarrow> uint8_t list option \<Rightarrow> message_t" where
  "set_tlv_value m i v = m\<lparr>msg_tlv := (msg_tlv m)[i := (msg_tlv m ! i)\<lparr>tlv_value := v\<rparr>]\<rparr>"

subsection \<open>message_tlv_add\<close>

text \<open>
  \<open>malloc_ok\<close> says whether the call's \<^verbatim>\<open>malloc\<close> returns a buffer (its contents are
  indeterminate until \<^verbatim>\<open>memcpy\<close> overwrites all of them; the model starts it with zeros).
  \<open>val\<close> is the memory readable at the caller's pointer; \<^verbatim>\<open>memcpy\<close> reads \<open>len\<close> bytes
  of it.
\<close>

definition message_tlv_add ::
  "bool \<Rightarrow> message_t \<Rightarrow> uint8_t \<Rightarrow> uint16_t \<Rightarrow> uint8_t list
     \<Rightarrow> fault + (message_result_t \<times> message_t)" where
  "message_tlv_add malloc_ok message type len val =
     (if msg_length message \<ge> MAX_TLV_COUNT then Inr (MESSAGE_ERROR_TOO_MANY_TLVS, message)
      else
        let i = msg_length message in
        if \<not> malloc_ok then Inr (MESSAGE_ERROR_OUT_OF_MEMORY, set_tlv_value message i None)
        else
          let message = set_tlv_value message i (Some (replicate (unat len) 0));
              message = set_tlv_type message i type;
              message = set_tlv_length message i len
          in if length val < unat len then Inl InvalidRead
             else
               let message = set_tlv_value message i (Some (take (unat len) val))
               in Inr (MESSAGE_SUCCESS, message\<lparr>msg_length := msg_length message + 1\<rparr>))"

subsection \<open>message_checksum\<close>

text \<open>
  \<^verbatim>\<open>crc32.h\<close> is not among the sources, so the CRC32 primitive is a parameter \<open>crc\<close> of
  every function that uses it: \<open>crc c bs\<close> is \<^verbatim>\<open>crc32(c, p, n)\<close> where \<open>bs\<close> are the \<open>n\<close>
  bytes at \<open>p\<close>. The loop runs over the counted records by index, as the source does.
\<close>

type_synonym crc32_t = "uint32_t \<Rightarrow> uint8_t list \<Rightarrow> uint32_t"

function message_checksum_loop :: "crc32_t \<Rightarrow> message_t \<Rightarrow> nat \<Rightarrow> uint32_t \<Rightarrow> uint32_t" where
  "message_checksum_loop crc message i checksum =
     (if i < msg_length message
      then message_checksum_loop crc message (i + 1)
             (crc checksum (tlv_bytes (msg_tlv message ! i)))
      else checksum)"
  by pat_completeness auto
termination
  by (relation "measure (\<lambda>(c, m, i, s). msg_length m - i)") auto

definition message_checksum :: "endianness \<Rightarrow> crc32_t \<Rightarrow> message_t \<Rightarrow> uint32_t" where
  "message_checksum e crc message = htonl e (message_checksum_loop crc message 0 0)"

subsection \<open>message_parse\<close>

text \<open>
  One pass of the \<^verbatim>\<open>while\<close> body: it either leaves \<^verbatim>\<open>message_parse\<close> (\<open>Break\<close>, with
  the value returned) or goes round again with the new message and offset (\<open>Continue\<close>).
  \<open>data\<close> holds the \<^verbatim>\<open>length\<close> bytes of the input, so \<^verbatim>\<open>length\<close> is \<open>length data\<close>;
  \<^verbatim>\<open>size_t\<close> offsets are natural numbers (they stay below \<open>length data + 65538\<close>).
  \<open>malloc_ok i\<close> says whether the \<^verbatim>\<open>malloc\<close> for record \<open>i\<close> returns a buffer.

  The third argument of the source's \<^verbatim>\<open>memcmp\<close> is \<^verbatim>\<open>sizeof(uint32_t) != 0\<close>, the value of
  a comparison, and is kept as written. \<^verbatim>\<open>memcmp\<close> reads that many bytes of the record's
  buffer, which has \<^verbatim>\<open>tlv[i].length\<close> bytes.
\<close>

datatype ('a, 'b) loop = Break 'a | Continue 'b

definition sizeof_uint32_t :: nat where
  "sizeof_uint32_t = 4"

definition message_parse_body ::
  "endianness \<Rightarrow> crc32_t \<Rightarrow> (nat \<Rightarrow> bool) \<Rightarrow> uint8_t list \<Rightarrow> message_t \<Rightarrow> nat
     \<Rightarrow> (fault + (message_result_t \<times> message_t), message_t \<times> nat) loop" where
  "message_parse_body e crc malloc_ok data message offset =
     (if msg_length message \<ge> MAX_TLV_COUNT
      then Break (Inr (MESSAGE_ERROR_TOO_MANY_TLVS, message_free message))
      else
        let i = msg_length message;
            message = set_tlv_type message i (data ! offset);
            offset = offset + 1
        in if offset + 2 > length data
           then Break (Inr (MESSAGE_ERROR_PARSE_ERROR, message_free message))
           else
             let message = set_tlv_length message i
                             (uint16_of_bytes e (take 2 (drop offset data)));
                 message = set_tlv_length message i (ntohs e (tlv_length (msg_tlv message ! i)));
                 offset = offset + 2
             in if offset + unat (tlv_length (msg_tlv message ! i)) > length data
                then Break (Inr (MESSAGE_ERROR_PARSE_ERROR, message_free message))
                else if \<not> malloc_ok i
                then Break (Inr (MESSAGE_ERROR_OUT_OF_MEMORY,
                                 message_free (set_tlv_value message i None)))
                else
                  let n = unat (tlv_length (msg_tlv message ! i));
                      message = set_tlv_value message i (Some (take n (drop offset data)));
                      offset = offset + n
                  in if tlv_type (msg_tlv message ! i) = TLV_CHECKSUM
                     then
                       let checksum = message_checksum e crc message;
                           k = (if sizeof_uint32_t \<noteq> 0 then 1 else 0)
                       in if length (buffer (tlv_value (msg_tlv message ! i))) < k
                          then Break (Inl InvalidRead)
                          else if memcmp (bytes_of_uint32 e checksum)
                                    (buffer (tlv_value (msg_tlv message ! i))) k \<noteq> 0
                          then Break (Inr (MESSAGE_ERROR_CHECKSUM_MISMATCH, message_free message))
                          else Continue (message\<lparr>msg_length := msg_length message + 1\<rparr>, offset)
                     else Continue (message\<lparr>msg_length := msg_length message + 1\<rparr>, offset))"

function message_parse_loop ::
  "endianness \<Rightarrow> crc32_t \<Rightarrow> (nat \<Rightarrow> bool) \<Rightarrow> uint8_t list \<Rightarrow> message_t \<Rightarrow> nat
     \<Rightarrow> fault + (message_result_t \<times> message_t)" where
  "message_parse_loop e crc malloc_ok data message offset =
     (if offset < length data
      then (case message_parse_body e crc malloc_ok data message offset of
              Break r \<Rightarrow> r
            | Continue (message', offset') \<Rightarrow>
                message_parse_loop e crc malloc_ok data message' offset')
      else Inr (MESSAGE_SUCCESS, message))"
  by pat_completeness auto
termination
  by (relation "measure (\<lambda>(e, c, a, data, m, offset). length data - offset)")
     (auto simp: message_parse_body_def Let_def split: if_splits)

text \<open>\<^verbatim>\<open>message_parse\<close> resets the message, whatever it held, and runs the loop from offset 0.\<close>

definition message_parse ::
  "endianness \<Rightarrow> crc32_t \<Rightarrow> (nat \<Rightarrow> bool) \<Rightarrow> uint8_t list
     \<Rightarrow> fault + (message_result_t \<times> message_t)" where
  "message_parse e crc malloc_ok data =
     message_parse_loop e crc malloc_ok data message_init 0"

subsection \<open>The typed adders\<close>

text \<open>
  The enumerations \<^verbatim>\<open>tlv_command_t\<close> and \<^verbatim>\<open>tlv_reply_t\<close> are integers; the adders narrow
  them to \<^verbatim>\<open>uint8_t\<close> and the getters widen the byte they read.
\<close>

type_synonym tlv_command_t = int
type_synonym tlv_reply_t = int

definition COMMAND_MOVE_MOTOR :: tlv_command_t where "COMMAND_MOVE_MOTOR = 2"
definition REPLY_STATUS_REPORT :: tlv_reply_t where "REPLY_STATUS_REPORT = 1"

text \<open>
  \<^verbatim>\<open>tlv_motor_position_t\<close>: three \<^verbatim>\<open>int32_t\<close> fields, laid out one after the other in its
  12 bytes.
\<close>

record tlv_motor_position_t =
  pos_x :: uint32_t
  pos_y :: uint32_t
  pos_z :: uint32_t

definition sizeof_tlv_motor_position_t :: nat where
  "sizeof_tlv_motor_position_t = 12"

definition bytes_of_motor_position :: "endianness \<Rightarrow> tlv_motor_position_t \<Rightarrow> uint8_t list" where
  "bytes_of_motor_position e p =
     bytes_of_uint32 e (pos_x p) @ bytes_of_uint32 e (pos_y p) @ bytes_of_uint32 e (pos_z p)"

definition motor_position_of_bytes :: "endianness \<Rightarrow> uint8_t list \<Rightarrow> tlv_motor_position_t" where
  "motor_position_of_bytes e bs =
     \<lparr>pos_x = uint32_of_bytes e (take 4 bs),
      pos_y = uint32_of_bytes e (take 4 (drop 4 bs)),
      pos_z = uint32_of_bytes e (take 4 (drop 8 bs))\<rparr>"

definition message_tlv_add_command ::
  "bool \<Rightarrow> message_t \<Rightarrow> tlv_command_t \<Rightarrow> fault + (message_result_t \<times> message_t)" where
  "message_tlv_add_command malloc_ok message command =
     (let command8 = (word_of_int command :: uint8_t)
      in message_tlv_add malloc_ok message TLV_COMMAND 1 [command8])"

definition message_tlv_add_reply ::
  "bool \<Rightarrow> message_t \<Rightarrow> tlv_reply_t \<Rightarrow> fault + (message_result_t \<times> message_t)" where
  "message_tlv_add_reply malloc_ok message reply =
     (let reply8 = (word_of_int reply :: uint8_t)
      in message_tlv_add malloc_ok message TLV_REPLY 1 [reply8])"

definition message_tlv_add_motor_position ::
  "endianness \<Rightarrow> bool \<Rightarrow> message_t \<Rightarrow> tlv_motor_position_t
     \<Rightarrow> fault + (message_result_t \<times> message_t)" where
  "message_tlv_add_motor_position e malloc_ok message position =
     (let tmp = \<lparr>pos_x = htonl e (pos_x position),
                 pos_y = htonl e (pos_y position),
                 pos_z = htonl e (pos_z position)\<rparr>
      in message_tlv_add malloc_ok message TLV_MOTOR_POSITION
           (of_nat sizeof_tlv_motor_position_t) (bytes_of_motor_position e tmp))"

definition message_tlv_add_current_reading ::
  "endianness \<Rightarrow> bool \<Rightarrow> message_t \<Rightarrow> uint16_t \<Rightarrow> fault + (message_result_t \<times> message_t)" where
  "message_tlv_add_current_reading e malloc_ok message current =
     (let current = htons e current
      in message_tlv_add malloc_ok message TLV_CURRENT_READING 2 (bytes_of_uint16 e current))"

definition message_tlv_add_checksum ::
  "endianness \<Rightarrow> crc32_t \<Rightarrow> bool \<Rightarrow> message_t \<Rightarrow> fault + (message_result_t \<times> message_t)" where
  "message_tlv_add_checksum e crc malloc_ok message =
     (let checksum = message_checksum e crc message
      in message_tlv_add malloc_ok message TLV_CHECKSUM (of_nat sizeof_uint32_t)
           (bytes_of_uint32 e checksum))"

subsection \<open>message_tlv_get and the typed getters\<close>

text \<open>
  \<open>destination\<close> is the object the caller's pointer refers to, and the \<^verbatim>\<open>length\<close> argument
  is its size, as in every call of the source. The result carries the destination after
  the call.
\<close>

function message_tlv_get_loop ::
  "message_t \<Rightarrow> uint8_t \<Rightarrow> uint8_t list \<Rightarrow> nat \<Rightarrow> fault + (message_result_t \<times> uint8_t list)" where
  "message_tlv_get_loop message type destination i =
     (if i < msg_length message
      then if tlv_type (msg_tlv message ! i) = type
           then if \<not> unat (tlv_length (msg_tlv message ! i)) \<le> length destination
                then Inl AssertionFailed
                else Inr (MESSAGE_SUCCESS, memcpy destination 0 (tlv_bytes (msg_tlv message ! i)))
           else message_tlv_get_loop message type destination (i + 1)
      else Inr (MESSAGE_ERROR_TLV_NOT_FOUND, destination))"
  by pat_completeness auto
termination
  by (relation "measure (\<lambda>(m, t, d, i). msg_length m - i)") auto

definition message_tlv_get ::
  "message_t \<Rightarrow> uint8_t \<Rightarrow> uint8_t list \<Rightarrow> fault + (message_result_t \<times> uint8_t list)" where
  "message_tlv_get message type destination = message_tlv_get_loop message type destination 0"

text \<open>
  The getters take the caller's object as it is before the call and return it as it is
  afterwards. \<open>local\<close> is the indeterminate content of the uninitialised local byte that
  \<^verbatim>\<open>message_tlv_get_command\<close> and \<^verbatim>\<open>message_tlv_get_reply\<close> read into.
\<close>

definition message_tlv_get_command ::
  "message_t \<Rightarrow> uint8_t \<Rightarrow> tlv_command_t \<Rightarrow> fault + (message_result_t \<times> tlv_command_t)" where
  "message_tlv_get_command message local command =
     (case message_tlv_get message TLV_COMMAND [local] of
        Inl f \<Rightarrow> Inl f
      | Inr (result, command8) \<Rightarrow>
          if result \<noteq> MESSAGE_SUCCESS then Inr (result, command)
          else Inr (MESSAGE_SUCCESS, uint (command8 ! 0)))"

definition message_tlv_get_reply ::
  "message_t \<Rightarrow> uint8_t \<Rightarrow> tlv_reply_t \<Rightarrow> fault + (message_result_t \<times> tlv_reply_t)" where
  "message_tlv_get_reply message local reply =
     (case message_tlv_get message TLV_REPLY [local] of
        Inl f \<Rightarrow> Inl f
      | Inr (result, reply8) \<Rightarrow>
          if result \<noteq> MESSAGE_SUCCESS then Inr (result, reply)
          else Inr (MESSAGE_SUCCESS, uint (reply8 ! 0)))"

definition message_tlv_get_motor_position ::
  "endianness \<Rightarrow> message_t \<Rightarrow> tlv_motor_position_t
     \<Rightarrow> fault + (message_result_t \<times> tlv_motor_position_t)" where
  "message_tlv_get_motor_position e message position =
     (case message_tlv_get message TLV_MOTOR_POSITION (bytes_of_motor_position e position) of
        Inl f \<Rightarrow> Inl f
      | Inr (result, bs) \<Rightarrow>
          let position = motor_position_of_bytes e bs
          in if result \<noteq> MESSAGE_SUCCESS then Inr (result, position)
             else Inr (MESSAGE_SUCCESS,
                       \<lparr>pos_x = ntohl e (pos_x position),
                        pos_y = ntohl e (pos_y position),
                        pos_z = ntohl e (pos_z position)\<rparr>))"

definition message_tlv_get_current_reading ::
  "endianness \<Rightarrow> message_t \<Rightarrow> uint16_t \<Rightarrow> fault + (message_result_t \<times> uint16_t)" where
  "message_tlv_get_current_reading e message current =
     (case message_tlv_get message TLV_CURRENT_READING (bytes_of_uint16 e current) of
        Inl f \<Rightarrow> Inl f
      | Inr (result, bs) \<Rightarrow>
          let current = uint16_of_bytes e bs
          in if result \<noteq> MESSAGE_SUCCESS then Inr (result, current)
             else Inr (MESSAGE_SUCCESS, ntohs e current))"

subsection \<open>message_serialized_size, message_serialize\<close>

function message_serialized_size_loop :: "message_t \<Rightarrow> nat \<Rightarrow> nat \<Rightarrow> nat" where
  "message_serialized_size_loop message i sz =
     (if i < msg_length message
      then message_serialized_size_loop message (i + 1)
             (sz + (1 + 2 + unat (tlv_length (msg_tlv message ! i))))
      else sz)"
  by pat_completeness auto
termination
  by (relation "measure (\<lambda>(m, i, s). msg_length m - i)") auto

definition message_serialized_size :: "message_t \<Rightarrow> nat" where
  "message_serialized_size message = message_serialized_size_loop message 0 0"

text \<open>
  \<open>buffer0\<close> is the destination, whose size is the \<^verbatim>\<open>length\<close> argument. The result is the
  \<^verbatim>\<open>ssize_t\<close> return value, with the destination as the call leaves it.
\<close>

function message_serialize_loop ::
  "endianness \<Rightarrow> message_t \<Rightarrow> nat \<Rightarrow> nat \<Rightarrow> nat \<Rightarrow> uint8_t list \<Rightarrow> int \<times> uint8_t list" where
  "message_serialize_loop e message i offset remaining_buffer buffer0 =
     (if i < msg_length message
      then
        let tlv_len = 1 + 2 + unat (tlv_length (msg_tlv message ! i))
        in if remaining_buffer < tlv_len
           then (message_result_code MESSAGE_ERROR_BUFFER_TOO_SMALL, buffer0)
           else
             let hlength = htons e (tlv_length (msg_tlv message ! i));
                 buffer1 = memcpy buffer0 offset [tlv_type (msg_tlv message ! i)];
                 buffer2 = memcpy buffer1 (offset + 1) (bytes_of_uint16 e hlength);
                 buffer3 = memcpy buffer2 (offset + 1 + 2) (tlv_bytes (msg_tlv message ! i))
             in message_serialize_loop e message (i + 1) (offset + tlv_len)
                  (remaining_buffer - tlv_len) buffer3
      else (int offset, buffer0))"
  by pat_completeness auto
termination
  by (relation "measure (\<lambda>(e, m, i, off, r, b). msg_length m - i)") auto

definition message_serialize :: "endianness \<Rightarrow> uint8_t list \<Rightarrow> message_t \<Rightarrow> int \<times> uint8_t list" where
  "message_serialize e buffer0 message =
     message_serialize_loop e message 0 0 (length buffer0) buffer0"

text \<open>
  \<^verbatim>\<open>message_print\<close> writes the message to the standard output and changes nothing; it has
  no counterpart here.
\<close>

section \<open>A CRC32 to run the codec with\<close>

text \<open>
  Modelled from the spec: the CRC32 primitive \<^verbatim>\<open>crc32(running_value, bytes)\<close> of \<^verbatim>\<open>crc32.h\<close>,
  which is not among the sources. The definition is the usual CRC-32 (reflected polynomial
  EDB88320, the running value complemented on entry and on exit). The theorems below hold
  for every function in its place; this one instantiates them on concrete messages.
\<close>

definition crc32_shift :: "uint32_t \<Rightarrow> uint32_t" where
  "crc32_shift c = (if bit c 0 then drop_bit 1 c XOR 0xEDB88320 else drop_bit 1 c)"

definition crc32_byte :: "uint32_t \<Rightarrow> uint8_t \<Rightarrow> uint32_t" where
  "crc32_byte c b = (crc32_shift ^^ 8) (c XOR ucast b)"

definition crc32 :: crc32_t where
  "crc32 c bs = NOT (foldl crc32_byte (NOT c) bs)"

text \<open>An allocator that never fails.\<close>

definition malloc_succeeds :: "nat \<Rightarrow> bool" where
  "malloc_succeeds i = True"

section \<open>The wire format of the specification\<close>

text \<open>
  The encoding as the specification words it: each record is one type byte, the length as
  two bytes in big-endian order, then the value bytes; a message is its records one after
  the other, in insertion order. \<open>running_crc\<close> is the checksum discipline in the same
  words: the CRC32 accumulated from 0, in record order, over the value bytes alone.
\<close>

definition wire_record :: "tlv_t \<Rightarrow> uint8_t list" where
  "wire_record t = [tlv_type t] @ be16 (tlv_length t) @ tlv_bytes t"

definition wire_format :: "tlv_t list \<Rightarrow> uint8_t list" where
  "wire_format ts = concat (map wire_record ts)"

definition wire_size :: "tlv_t list \<Rightarrow> nat" where
  "wire_size ts = sum_list (map (\<lambda>t. 1 + 2 + unat (tlv_length t)) ts)"

definition running_crc :: "crc32_t \<Rightarrow> tlv_t list \<Rightarrow> uint32_t" where
  "running_crc crc ts = foldl (\<lambda>c t. crc c (tlv_bytes t)) 0 ts"

text \<open>
  A record of type \<^verbatim>\<open>TLV_CHECKSUM\<close> is consistent with the records \<open>prev\<close> before it when
  its value is the four bytes of their checksum, in network order; \<open>checksums_ok\<close> asks
  this of every record of a list.
\<close>

definition checksum_record_ok :: "crc32_t \<Rightarrow> tlv_t list \<Rightarrow> tlv_t \<Rightarrow> bool" where
  "checksum_record_ok crc prev t =
     (tlv_type t = TLV_CHECKSUM \<longrightarrow> buffer (tlv_value t) = be32 (running_crc crc prev))"

fun checksums_ok :: "crc32_t \<Rightarrow> tlv_t list \<Rightarrow> tlv_t list \<Rightarrow> bool" where
  "checksums_ok crc prev [] = True"
| "checksums_ok crc prev (t # ts) =
     (checksum_record_ok crc prev t \<and> checksums_ok crc (prev @ [t]) ts)"

text \<open>
  What the parser asks of a record of type \<^verbatim>\<open>TLV_CHECKSUM\<close>: that its value has a first
  byte, and that this byte is the first byte of the checksum of the records \<open>prev\<close>
  before it.
\<close>

definition checksum_record_passes :: "crc32_t \<Rightarrow> tlv_t list \<Rightarrow> tlv_t \<Rightarrow> bool" where
  "checksum_record_passes crc prev t =
     (tlv_type t = TLV_CHECKSUM \<longrightarrow>
        tlv_bytes t \<noteq> [] \<and> hd (tlv_bytes t) = hd (be32 (running_crc crc prev)))"

fun checksums_pass :: "crc32_t \<Rightarrow> tlv_t list \<Rightarrow> tlv_t list \<Rightarrow> bool" where
  "checksums_pass crc prev [] = True"
| "checksums_pass crc prev (t # ts) =
     (checksum_record_passes crc prev t \<and> checksums_pass crc (prev @ [t]) ts)"

text \<open>
  The message that holds the records \<open>ts\<close> in its first slots, its other slots being as
  \<^verbatim>\<open>message_init\<close> leaves them.
\<close>

definition message_of :: "tlv_t list \<Rightarrow> message_t" where
  "message_of ts =
     \<lparr>msg_length = length ts, msg_tlv = ts @ replicate (MAX_TLV_COUNT - length ts) zero_tlv\<rparr>"

text \<open>
  A caller that starts from \<^verbatim>\<open>message_init\<close> and adds the given records in turn, every
  allocation succeeding, and stops at the first add that does not return
  \<^verbatim>\<open>MESSAGE_SUCCESS\<close>.
\<close>

fun add_all ::
  "message_t \<Rightarrow> (uint8_t \<times> uint16_t \<times> uint8_t list) list
     \<Rightarrow> fault + (message_result_t \<times> message_t)" where
  "add_all message [] = Inr (MESSAGE_SUCCESS, message)"
| "add_all message ((type, len, val) # rest) =
     (case message_tlv_add True message type len val of
        Inr (MESSAGE_SUCCESS, message') \<Rightarrow> add_all message' rest
      | r \<Rightarrow> r)"

section \<open>Example messages\<close>

definition example_command :: tlv_t where
  "example_command = \<lparr>tlv_type = 1, tlv_length = 1, tlv_value = Some [2]\<rparr>"

definition example_reading :: tlv_t where
  "example_reading = \<lparr>tlv_type = 5, tlv_length = 2, tlv_value = Some [0x12, 0x34]\<rparr>"

definition example_message :: message_t where
  "example_message =
     \<lparr>msg_length = 2, msg_tlv = [example_command, example_reading] @ replicate 23 zero_tlv\<rparr>"

definition example_command2 :: tlv_t where
  "example_command2 = \<lparr>tlv_type = 1, tlv_length = 1, tlv_value = Some [9]\<rparr>"

definition example_duplicates :: message_t where
  "example_duplicates =
     \<lparr>msg_length = 3,
      msg_tlv = [example_reading, example_command, example_command2] @ replicate 22 zero_tlv\<rparr>"

definition example_position :: tlv_motor_position_t where
  "example_position = \<lparr>pos_x = - 1, pos_y = 1000000, pos_z = 0\<rparr>"

definition example_bad_checksum :: message_t where
  "example_bad_checksum =
     message_of [\<lparr>tlv_type = TLV_CHECKSUM, tlv_length = 4, tlv_value = Some [1, 0, 0, 0]\<rparr>]"

text \<open>A move-motor command followed by its checksum, the CRC32 of the byte 02.\<close>

definition example_scenario :: message_t where
  "example_scenario =
     message_of [\<lparr>tlv_type = TLV_COMMAND, tlv_length = 1, tlv_value = Some [2]\<rparr>,
                 \<lparr>tlv_type = TLV_CHECKSUM, tlv_length = 4,
                  tlv_value = Some [0x3C, 0x0C, 0x8E, 0xA1]\<rparr>]"

text \<open>A message that is full: 25 move-motor commands.\<close>

definition example_full :: message_t where
  "example_full =
     message_of (replicate 25 \<lparr>tlv_type = TLV_COMMAND, tlv_length = 1, tlv_value = Some [2]\<rparr>)"

text \<open>What the wire input 01 00 02 07 07 parses to: a command record of two bytes.\<close>

definition example_long_command :: message_t where
  "example_long_command =
     message_of [\<lparr>tlv_type = TLV_COMMAND, tlv_length = 2, tlv_value = Some [7, 7]\<rparr>]"

text \<open>
  A current reading 12 34 and an error report 00 00 00 01 with their checksum
  DC 7A 2C E3; then the same with the first byte of the reading changed to 85 and the
  checksum record as it was. The checksum of the changed records is DC 19 0A 18.
\<close>

definition example_report :: tlv_t where
  "example_report = \<lparr>tlv_type = 7, tlv_length = 4, tlv_value = Some [0, 0, 0, 1]\<rparr>"

definition example_checksum :: tlv_t where
  "example_checksum =
     \<lparr>tlv_type = TLV_CHECKSUM, tlv_length = 4, tlv_value = Some [0xDC, 0x7A, 0x2C, 0xE3]\<rparr>"

definition example_reading_mutated :: tlv_t where
  "example_reading_mutated = \<lparr>tlv_type = 5, tlv_length = 2, tlv_value = Some [0x85, 0x34]\<rparr>"

section \<open>Byte order\<close>

lemma bit_uint8_less: "bit (b :: uint8_t) n \<Longrightarrow> n < 8"
  by (auto dest: bit_imp_le_length)

lemma be16_decode_be16: "be16_decode (ucast (drop_bit 8 w)) (ucast w) = w"
  unfolding be16_decode_def
  by (rule bit_word_eqI) (auto simp: bit_simps)

lemma be16_of_decode: "be16 (be16_decode a b) = [a, b]"
  unfolding be16_decode_def be16_def
  apply simp
  apply (rule conjI; rule bit_word_eqI)
   apply (auto simp: bit_simps dest: bit_uint8_less)
  done

lemma be32_decode_be32:
  "be32_decode (ucast (drop_bit 24 w)) (ucast (drop_bit 16 w)) (ucast (drop_bit 8 w)) (ucast w) = w"
  unfolding be32_decode_def
proof (rule bit_word_eqI)
  fix n :: nat
  assume "n < LENGTH(32)"
  then consider "n < 8" | "8 \<le> n" "n < 16" | "16 \<le> n" "n < 24" | "24 \<le> n" "n < 32"
    by fastforce
  then show "bit (push_bit 24 (ucast (ucast (drop_bit 24 w) :: 8 word)) OR
                  push_bit 16 (ucast (ucast (drop_bit 16 w) :: 8 word)) OR
                  push_bit 8 (ucast (ucast (drop_bit 8 w) :: 8 word)) OR
                  ucast (ucast w :: 8 word) :: 32 word) n = bit w n"
    by cases (auto simp: bit_simps)
qed

lemma be32_of_decode: "be32 (be32_decode a b c d) = [a, b, c, d]"
  unfolding be32_decode_def be32_def
  apply simp
  apply (intro conjI; rule bit_word_eqI)
     apply (auto simp: bit_simps dest: bit_uint8_less)
  done

lemma bswap16_decode: "bswap16 (be16_decode a b) = be16_decode b a"
  using be16_of_decode [of a b] by (simp add: bswap16_def be16_def)

lemma bswap32_decode: "bswap32 (be32_decode a b c d) = be32_decode d c b a"
  using be32_of_decode [of a b c d] by (simp add: bswap32_def be32_def)

text \<open>
  Whatever the host, a value passed through \<^verbatim>\<open>htons\<close> or \<^verbatim>\<open>htonl\<close> lies in memory in
  big-endian order, and \<^verbatim>\<open>ntohs\<close> or \<^verbatim>\<open>ntohl\<close> of bytes copied from the wire is their
  big-endian reading.
\<close>

lemma bytes_of_uint16_htons: "bytes_of_uint16 e (htons e w) = be16 w"
  using be16_of_decode [of "ucast w" "ucast (drop_bit 8 w)"]
  by (cases e) (simp_all add: bytes_of_uint16_def htons_def bswap16_def be16_def)

lemma bytes_of_uint32_htonl: "bytes_of_uint32 e (htonl e w) = be32 w"
  using be32_of_decode
    [of "ucast w" "ucast (drop_bit 8 w)" "ucast (drop_bit 16 w)" "ucast (drop_bit 24 w)"]
  by (cases e) (simp_all add: bytes_of_uint32_def htonl_def bswap32_def be32_def)

lemma ntohs_uint16_of_bytes: "ntohs e (uint16_of_bytes e [a, b]) = be16_decode a b"
  by (cases e) (simp_all add: ntohs_def uint16_of_bytes_def bswap16_decode)

lemma ntohl_uint32_of_bytes: "ntohl e (uint32_of_bytes e [a, b, c, d]) = be32_decode a b c d"
  by (cases e) (simp_all add: ntohl_def uint32_of_bytes_def bswap32_decode)

lemma uint16_of_bytes_of_uint16: "uint16_of_bytes e (bytes_of_uint16 e w) = w"
  by (cases e) (simp_all add: uint16_of_bytes_def bytes_of_uint16_def be16_def be16_decode_be16)

lemma uint32_of_bytes_of_uint32: "uint32_of_bytes e (bytes_of_uint32 e w) = w"
  by (cases e) (simp_all add: uint32_of_bytes_def bytes_of_uint32_def be32_def be32_decode_be32)

lemma length_be16: "length (be16 w) = 2"
  by (simp add: be16_def)

lemma length_be32: "length (be32 w) = 4"
  by (simp add: be32_def)

lemma length_bytes_of_uint16: "length (bytes_of_uint16 e w) = 2"
  by (cases e) (simp_all add: bytes_of_uint16_def be16_def)

lemma length_bytes_of_uint32: "length (bytes_of_uint32 e w) = 4"
  by (cases e) (simp_all add: bytes_of_uint32_def be32_def)

section \<open>The loops over the counted records\<close>

text \<open>
  The equations of the loops are applied where a proof asks for them, and the loops over
  the counted records are then read as functions of the list of records.
\<close>

declare message_checksum_loop.simps [simp del]
declare message_serialized_size_loop.simps [simp del]
declare message_tlv_get_loop.simps [simp del]
declare message_serialize_loop.simps [simp del]
declare message_parse_loop.simps [simp del]

lemma drop_records:
  "i < msg_length m \<Longrightarrow> msg_length m \<le> length (msg_tlv m)
   \<Longrightarrow> drop i (records m) = msg_tlv m ! i # drop (i + 1) (records m)"
  by (simp add: records_def Cons_nth_drop_Suc [symmetric])

lemma drop_records_Nil:
  "\<not> i < msg_length m \<Longrightarrow> msg_length m \<le> length (msg_tlv m) \<Longrightarrow> drop i (records m) = []"
  by (simp add: records_def)

lemma tlv_valid_bytes: "tlv_valid t \<Longrightarrow> length (tlv_bytes t) = unat (tlv_length t)"
  by (auto simp: tlv_valid_def tlv_bytes_def buffer_def split: option.splits)

lemma message_serialized_size_loop_sum:
  "msg_length m \<le> length (msg_tlv m) \<Longrightarrow>
   message_serialized_size_loop m i s = s + wire_size (drop i (records m))"
proof (induction m i s rule: message_serialized_size_loop.induct)
  case (1 message i sz)
  show ?case
  proof (cases "i < msg_length message")
    case True
    have "message_serialized_size_loop message i sz =
          message_serialized_size_loop message (i + 1)
            (sz + (1 + 2 + unat (tlv_length (msg_tlv message ! i))))"
      using True by (subst message_serialized_size_loop.simps) simp
    also have "\<dots> = sz + (1 + 2 + unat (tlv_length (msg_tlv message ! i)))
                      + wire_size (drop (i + 1) (records message))"
      using 1 True by simp
    also have "\<dots> = sz + wire_size (drop i (records message))"
      using True "1.prems" by (subst (2) drop_records) (simp_all add: wire_size_def)
    finally show ?thesis .
  next
    case False
    then show ?thesis
      using "1.prems"
      by (subst message_serialized_size_loop.simps) (simp add: drop_records_Nil wire_size_def)
  qed
qed

lemma message_tlv_get_loop_find:
  "msg_length m \<le> length (msg_tlv m) \<Longrightarrow>
   message_tlv_get_loop m ty d i =
     (case find (\<lambda>t. tlv_type t = ty) (drop i (records m)) of
        None \<Rightarrow> Inr (MESSAGE_ERROR_TLV_NOT_FOUND, d)
      | Some t \<Rightarrow>
          if unat (tlv_length t) \<le> length d
          then Inr (MESSAGE_SUCCESS, memcpy d 0 (tlv_bytes t))
          else Inl AssertionFailed)"
proof (induction m ty d i rule: message_tlv_get_loop.induct)
  case (1 message type destination i)
  show ?case
  proof (cases "i < msg_length message")
    case True
    note unfold = drop_records [OF True "1.prems"]
    show ?thesis
    proof (cases "tlv_type (msg_tlv message ! i) = type")
      case hit: True
      then show ?thesis
        using True by (subst message_tlv_get_loop.simps) (simp add: unfold)
    next
      case miss: False
      have "message_tlv_get_loop message type destination i =
            message_tlv_get_loop message type destination (i + 1)"
        using True miss by (subst message_tlv_get_loop.simps) simp
      then show ?thesis
        using 1 True miss by (simp add: unfold)
    qed
  next
    case False
    then show ?thesis
      using "1.prems" by (subst message_tlv_get_loop.simps) (simp add: drop_records_Nil)
  qed
qed

section \<open>memcpy\<close>

lemma memcpy_append:
  assumes "off \<le> length buf"
  shows "memcpy (memcpy buf off a) (off + length a) b = memcpy buf off (a @ b)"
proof -
  let ?B = "take off buf @ a @ drop (off + length a) buf"
  have t: "take (off + length a) ?B = take off buf @ a"
    using assms by simp
  have d: "drop (off + length a + length b) ?B = drop (off + length a + length b) buf"
    using assms by (simp add: add.commute add.left_commute)
  show ?thesis
    unfolding memcpy_def t d by (simp add: add.assoc)
qed

lemma memcpy_record:
  assumes "off \<le> length buf" "length l = 2"
  shows "memcpy (memcpy (memcpy buf off [ty]) (off + 1) l) (off + 1 + 2) v
         = memcpy buf off ([ty] @ l @ v)"
proof -
  have e1: "off + 1 = off + length [ty]" by simp
  have e2: "off + 1 + 2 = off + length ([ty] @ l)" using assms(2) by simp
  have "memcpy (memcpy buf off [ty]) (off + 1) l = memcpy buf off ([ty] @ l)"
    unfolding e1 by (rule memcpy_append [OF assms(1)])
  moreover have "memcpy (memcpy buf off ([ty] @ l)) (off + 1 + 2) v = memcpy buf off (([ty] @ l) @ v)"
    unfolding e2 by (rule memcpy_append [OF assms(1)])
  ultimately show ?thesis by simp
qed

section \<open>message_serialized_size and message_serialize\<close>

text \<open>
  \<^verbatim>\<open>message_serialize\<close> on a well-formed message: when the records still to be written fit
  into what is left of the buffer, the loop writes their wire format at the offset and
  returns the offset behind it.
\<close>

lemma length_wire_record: "tlv_valid t \<Longrightarrow> length (wire_record t) = 1 + 2 + unat (tlv_length t)"
  by (simp add: wire_record_def length_be16 tlv_valid_bytes)

lemma records_valid:
  "message_valid m \<Longrightarrow> i < msg_length m \<Longrightarrow> tlv_valid (msg_tlv m ! i)"
  by (simp add: message_valid_def records_def list_all_length)

lemma message_serialize_loop_fits:
  assumes "message_valid m"
  shows "off + rem = length buf \<Longrightarrow> wire_size (drop i (records m)) \<le> rem \<Longrightarrow>
         message_serialize_loop e m i off rem buf =
           (int (off + wire_size (drop i (records m))),
            memcpy buf off (wire_format (drop i (records m))))"
  using assms
proof (induction e m i off rem buf rule: message_serialize_loop.induct)
  case (1 e message i offset remaining_buffer buffer0)
  have len: "msg_length message \<le> length (msg_tlv message)"
    using "1.prems"(3) by (simp add: message_valid_def)
  show ?case
  proof (cases "i < msg_length message")
    case True
    define t where "t = msg_tlv message ! i"
    define L where "L = 1 + 2 + unat (tlv_length t)"
    define buffer3 where "buffer3 = memcpy buffer0 offset (wire_record t)"
    have unfold: "drop i (records message) = t # drop (i + 1) (records message)"
      unfolding t_def by (rule drop_records [OF True len])
    have valid: "tlv_valid t"
      unfolding t_def by (rule records_valid [OF "1.prems"(3) True])
    have lenrec: "length (wire_record t) = L"
      unfolding L_def by (rule length_wire_record [OF valid])
    have size: "wire_size (drop i (records message)) = L + wire_size (drop (i + 1) (records message))"
      by (simp add: unfold wire_size_def L_def)
    have fits: "\<not> remaining_buffer < L"
      using "1.prems"(2) size by simp
    have off: "offset \<le> length buffer0"
      using "1.prems"(1) by simp
    have written:
      "memcpy (memcpy (memcpy buffer0 offset [tlv_type t]) (offset + 1)
                 (bytes_of_uint16 e (htons e (tlv_length t)))) (offset + 1 + 2) (tlv_bytes t)
       = buffer3"
      unfolding buffer3_def wire_record_def bytes_of_uint16_htons
      by (rule memcpy_record [OF off length_be16])
    have step: "message_serialize_loop e message i offset remaining_buffer buffer0 =
          message_serialize_loop e message (i + 1) (offset + L) (remaining_buffer - L) buffer3"
      using True fits written unfolding L_def
      by (subst message_serialize_loop.simps) (simp add: Let_def t_def [symmetric])
    have len3: "length buffer3 = length buffer0"
      unfolding buffer3_def using "1.prems"(1) fits lenrec by (simp add: memcpy_def)
    have Ldef: "L = 1 + 2 + unat (tlv_length (msg_tlv message ! i))"
      by (simp add: L_def t_def)
    have written': "buffer3 = memcpy
            (memcpy (memcpy buffer0 offset [tlv_type (msg_tlv message ! i)]) (offset + 1)
              (bytes_of_uint16 e (htons e (tlv_length (msg_tlv message ! i)))))
            (offset + 1 + 2) (tlv_bytes (msg_tlv message ! i))"
      using written by (simp add: t_def)
    have "message_serialize_loop e message (i + 1) (offset + L) (remaining_buffer - L) buffer3 =
          (int (offset + L + wire_size (drop (i + 1) (records message))),
           memcpy buffer3 (offset + L) (wire_format (drop (i + 1) (records message))))"
    proof (rule "1.IH" [OF True Ldef fits refl refl refl written' _ _ "1.prems"(3)])
      show "offset + L + (remaining_buffer - L) = length buffer3"
        using len3 "1.prems"(1) fits by simp
      show "wire_size (drop (i + 1) (records message)) \<le> remaining_buffer - L"
        using "1.prems"(2) size by simp
    qed
    moreover have "memcpy buffer3 (offset + L) (wire_format (drop (i + 1) (records message)))
                 = memcpy buffer0 offset (wire_format (drop i (records message)))"
      unfolding buffer3_def lenrec [symmetric]
      by (simp add: memcpy_append [OF off] unfold wire_format_def)
    ultimately show ?thesis
      using step size by (simp add: add.assoc)
  next
    case False
    then show ?thesis
      using len
      by (subst message_serialize_loop.simps)
         (simp add: drop_records_Nil wire_size_def wire_format_def memcpy_def)
  qed
qed

lemma message_serialize_loop_too_small:
  "msg_length m \<le> length (msg_tlv m) \<Longrightarrow> rem < wire_size (drop i (records m)) \<Longrightarrow>
   fst (message_serialize_loop e m i off rem buf) = message_result_code MESSAGE_ERROR_BUFFER_TOO_SMALL"
proof (induction e m i off rem buf rule: message_serialize_loop.induct)
  case (1 e message i offset remaining_buffer buffer0)
  show ?case
  proof (cases "i < msg_length message")
    case True
    define L where "L = 1 + 2 + unat (tlv_length (msg_tlv message ! i))"
    have size: "wire_size (drop i (records message)) = L + wire_size (drop (i + 1) (records message))"
      by (simp add: drop_records [OF True "1.prems"(1)] wire_size_def L_def)
    show ?thesis
    proof (cases "remaining_buffer < L")
      case small: True
      then show ?thesis
        using True unfolding L_def
        by (subst message_serialize_loop.simps) (simp add: Let_def)
    next
      case fits: False
      have "fst (message_serialize_loop e message (i + 1) (offset + L) (remaining_buffer - L)
                  (memcpy (memcpy (memcpy buffer0 offset [tlv_type (msg_tlv message ! i)])
                             (offset + 1)
                             (bytes_of_uint16 e (htons e (tlv_length (msg_tlv message ! i)))))
                     (offset + 1 + 2) (tlv_bytes (msg_tlv message ! i))))
            = message_result_code MESSAGE_ERROR_BUFFER_TOO_SMALL"
      proof (rule "1.IH" [OF True L_def fits refl refl refl refl "1.prems"(1)])
        show "remaining_buffer - L < wire_size (drop (i + 1) (records message))"
          using "1.prems"(2) size fits by simp
      qed
      then show ?thesis
        using True fits unfolding L_def
        by (subst message_serialize_loop.simps) (simp add: Let_def)
    qed
  next
    case False
    then show ?thesis
      using "1.prems" by (simp add: drop_records_Nil wire_size_def)
  qed
qed

lemma message_serialized_size_wire:
  "msg_length m \<le> length (msg_tlv m) \<Longrightarrow> message_serialized_size m = wire_size (records m)"
  by (simp add: message_serialized_size_def message_serialized_size_loop_sum)

lemma length_wire_format: "list_all tlv_valid ts \<Longrightarrow> length (wire_format ts) = wire_size ts"
  by (induction ts) (simp_all add: wire_format_def wire_size_def length_wire_record)

lemma message_serialize_fits:
  assumes "message_valid m" "wire_size (records m) \<le> length buf"
  shows "message_serialize e buf m =
           (int (wire_size (records m)), wire_format (records m) @ drop (wire_size (records m)) buf)"
proof -
  have "length (wire_format (records m)) = wire_size (records m)"
    using assms(1) by (simp add: message_valid_def length_wire_format)
  then show ?thesis
    using message_serialize_loop_fits [OF assms(1), of 0 "length buf" buf 0 e] assms(2)
    by (simp add: message_serialize_def memcpy_def)
qed

lemma message_serialize_too_small:
  assumes "msg_length m \<le> length (msg_tlv m)" "length buf < wire_size (records m)"
  shows "fst (message_serialize e buf m) = message_result_code MESSAGE_ERROR_BUFFER_TOO_SMALL"
  using message_serialize_loop_too_small [OF assms(1), of "length buf" 0 e 0 buf] assms(2)
  by (simp add: message_serialize_def)

lemma example_message_valid: "message_valid example_message"
  by (simp add: message_valid_def example_message_def records_def MAX_TLV_COUNT_def
      tlv_valid_def example_command_def example_reading_def)

text \<open>
  C6: \<^verbatim>\<open>message_serialized_size\<close> is the sum over the records of \<open>1 + 2 + length\<close>.
  \<^verbatim>\<open>message_serialize\<close> into a buffer of at least that size writes the records in insertion
  order, each as its type byte, its length in two big-endian bytes and its value bytes,
  leaves the rest of the buffer alone and returns the number of bytes written, which is
  \<^verbatim>\<open>message_serialized_size\<close>; into a smaller buffer it returns
  \<^verbatim>\<open>MESSAGE_ERROR_BUFFER_TOO_SMALL\<close>.
\<close>

theorem message_serialize_wire_format:
  assumes "message_valid m"
  shows "message_serialized_size m = (\<Sum>t\<leftarrow>records m. 1 + 2 + unat (tlv_length t))
       \<and> (message_serialized_size m \<le> length buf \<longrightarrow>
            message_serialize e buf m =
              (int (message_serialized_size m),
               wire_format (records m) @ drop (message_serialized_size m) buf))
       \<and> (length buf < message_serialized_size m \<longrightarrow>
            fst (message_serialize e buf m) = message_result_code MESSAGE_ERROR_BUFFER_TOO_SMALL)"
proof -
  have len: "msg_length m \<le> length (msg_tlv m)"
    using assms by (simp add: message_valid_def)
  have size: "message_serialized_size m = wire_size (records m)"
    by (rule message_serialized_size_wire [OF len])
  show ?thesis
    using message_serialize_fits [OF assms, of buf e] message_serialize_too_small [OF len, of buf e]
    by (simp add: size) (simp add: wire_size_def)
qed

theorem message_serialize_wire_format_witness:
  "message_valid example_message
   \<and> message_serialized_size example_message = 9
   \<and> message_serialize BigEndian [0xAA, 0xAA, 0xAA, 0xAA, 0xAA, 0xAA, 0xAA, 0xAA, 0xAA, 0xAA, 0xAA] example_message
       = (9, [1, 0, 1, 2, 5, 0, 2, 0x12, 0x34, 0xAA, 0xAA])
   \<and> fst (message_serialize LittleEndian [0xAA, 0xAA, 0xAA, 0xAA, 0xAA, 0xAA, 0xAA, 0xAA] example_message) = - 3"
proof -
  have r: "records example_message = [example_command, example_reading]"
    by (simp add: example_message_def records_def)
  have w: "wire_format [example_command, example_reading] = [1, 0, 1, 2, 5, 0, 2, 0x12, 0x34]"
    by (simp add: wire_format_def wire_record_def example_command_def example_reading_def
        be16_def tlv_bytes_def buffer_def)
  have sz: "message_serialized_size example_message = 9"
    using message_serialize_wire_format [OF example_message_valid, of "[]" BigEndian]
    by (simp add: r example_command_def example_reading_def)
  show ?thesis
    using message_serialize_wire_format [OF example_message_valid, of "[0xAA, 0xAA, 0xAA, 0xAA, 0xAA, 0xAA, 0xAA, 0xAA, 0xAA, 0xAA, 0xAA]" BigEndian]
      message_serialize_wire_format [OF example_message_valid, of "[0xAA, 0xAA, 0xAA, 0xAA, 0xAA, 0xAA, 0xAA, 0xAA]" LittleEndian]
    by (simp add: example_message_valid r w sz)
qed

section \<open>message_tlv_add\<close>

lemma tlv_update_all:
  "(t :: tlv_t)\<lparr>tlv_type := ty, tlv_length := len, tlv_value := v\<rparr>
     = \<lparr>tlv_type = ty, tlv_length = len, tlv_value = v\<rparr>"
  by (cases t) simp

lemma set_tlv_fields:
  "i < length (msg_tlv m) \<Longrightarrow>
   set_tlv_value (set_tlv_length (set_tlv_type (set_tlv_value m i b) i ty) i len) i v
     = m\<lparr>msg_tlv := (msg_tlv m)[i := \<lparr>tlv_type = ty, tlv_length = len, tlv_value = v\<rparr>]\<rparr>"
  by (simp add: set_tlv_value_def set_tlv_length_def set_tlv_type_def tlv_update_all)

lemma records_append:
  "msg_length m < length (msg_tlv m) \<Longrightarrow>
   records (m\<lparr>msg_tlv := (msg_tlv m)[msg_length m := t], msg_length := msg_length m + 1\<rparr>)
     = records m @ [t]"
  by (simp add: records_def take_Suc_conv_app_nth)

lemma message_tlv_add_success:
  assumes "msg_length m < MAX_TLV_COUNT" "length (msg_tlv m) = MAX_TLV_COUNT"
    "unat len \<le> length val"
  shows "message_tlv_add True m ty len val =
           Inr (MESSAGE_SUCCESS,
                m\<lparr>msg_tlv := (msg_tlv m)[msg_length m :=
                                 \<lparr>tlv_type = ty, tlv_length = len,
                                  tlv_value = Some (take (unat len) val)\<rparr>],
                  msg_length := msg_length m + 1\<rparr>)"
proof -
  have i: "msg_length m < length (msg_tlv m)"
    using assms by simp
  have "set_tlv_value
          (set_tlv_length (set_tlv_type (set_tlv_value m (msg_length m)
             (Some (replicate (unat len) 0))) (msg_length m) ty) (msg_length m) len)
          (msg_length m) (Some (take (unat len) val))
        = m\<lparr>msg_tlv := (msg_tlv m)[msg_length m :=
                 \<lparr>tlv_type = ty, tlv_length = len, tlv_value = Some (take (unat len) val)\<rparr>]\<rparr>"
    by (rule set_tlv_fields [OF i])
  then show ?thesis
    using assms unfolding message_tlv_add_def Let_def
    by (simp add: set_tlv_value_def set_tlv_length_def set_tlv_type_def)
qed

text \<open>
  C4: a call of \<^verbatim>\<open>message_tlv_add\<close> whose source buffer holds the \<open>len\<close> bytes it is
  asked to copy returns one of three results. When it returns \<^verbatim>\<open>MESSAGE_ERROR_TOO_MANY_TLVS\<close>
  or \<^verbatim>\<open>MESSAGE_ERROR_OUT_OF_MEMORY\<close>, the record count and the counted records are what
  they were; when it returns \<^verbatim>\<open>MESSAGE_SUCCESS\<close>, exactly one record, with the given type,
  length and bytes, follows the earlier records, which are unchanged.
\<close>

theorem message_tlv_add_atomic:
  assumes "length (msg_tlv m) = MAX_TLV_COUNT" "unat len \<le> length val"
  shows "\<exists>result m'.
           message_tlv_add malloc_ok m ty len val = Inr (result, m')
         \<and> (result = MESSAGE_ERROR_TOO_MANY_TLVS \<longleftrightarrow> MAX_TLV_COUNT \<le> msg_length m)
         \<and> (result = MESSAGE_ERROR_OUT_OF_MEMORY \<longleftrightarrow> msg_length m < MAX_TLV_COUNT \<and> \<not> malloc_ok)
         \<and> (result = MESSAGE_SUCCESS \<longleftrightarrow> msg_length m < MAX_TLV_COUNT \<and> malloc_ok)
         \<and> (result \<noteq> MESSAGE_SUCCESS \<longrightarrow>
               msg_length m' = msg_length m \<and> records m' = records m)
         \<and> (result = MESSAGE_SUCCESS \<longrightarrow>
               msg_length m' = msg_length m + 1
             \<and> records m' = records m @ [\<lparr>tlv_type = ty, tlv_length = len,
                                           tlv_value = Some (take (unat len) val)\<rparr>])"
proof (cases "MAX_TLV_COUNT \<le> msg_length m")
  case True
  then show ?thesis
    by (simp add: message_tlv_add_def)
next
  case room: False
  show ?thesis
  proof (cases malloc_ok)
    case True
    have lt: "msg_length m < MAX_TLV_COUNT"
      using room by simp
    have i: "msg_length m < length (msg_tlv m)"
      using room assms(1) by simp
    show ?thesis
      using True room records_append [OF i]
      by (simp add: message_tlv_add_success [OF lt assms])
  next
    case False
    then show ?thesis
      using room by (simp add: message_tlv_add_def Let_def set_tlv_value_def records_def)
  qed
qed

theorem message_tlv_add_atomic_witness:
  "length (msg_tlv example_message) = MAX_TLV_COUNT \<and> unat (1 :: uint16_t) \<le> length [7 :: uint8_t]
   \<and> (\<exists>m'. message_tlv_add False example_message TLV_REPLY 1 [7]
               = Inr (MESSAGE_ERROR_OUT_OF_MEMORY, m')
            \<and> msg_length m' = 2 \<and> records m' = [example_command, example_reading])"
proof -
  have l: "length (msg_tlv example_message) = MAX_TLV_COUNT"
    by (simp add: example_message_def MAX_TLV_COUNT_def)
  have v: "unat (1 :: uint16_t) \<le> length [7 :: uint8_t]"
    by simp
  have r: "records example_message = [example_command, example_reading]"
    by (simp add: example_message_def records_def)
  have n: "msg_length example_message = 2"
    by (simp add: example_message_def)
  show ?thesis
    using message_tlv_add_atomic [OF l v, of False TLV_REPLY]
    by (auto simp: l r n MAX_TLV_COUNT_def)
qed

section \<open>message_tlv_get\<close>

lemma message_tlv_get_find:
  "msg_length m \<le> length (msg_tlv m) \<Longrightarrow>
   message_tlv_get m ty d =
     (case find (\<lambda>t. tlv_type t = ty) (records m) of
        None \<Rightarrow> Inr (MESSAGE_ERROR_TLV_NOT_FOUND, d)
      | Some t \<Rightarrow>
          if unat (tlv_length t) \<le> length d
          then Inr (MESSAGE_SUCCESS, memcpy d 0 (tlv_bytes t))
          else Inl AssertionFailed)"
  by (simp add: message_tlv_get_def message_tlv_get_loop_find)

lemma find_first_index:
  assumes "k < length xs" "P (xs ! k)" "\<forall>j<k. \<not> P (xs ! j)"
  shows "find P xs = Some (xs ! k)"
  using assms by (auto simp: find_Some_iff)

lemma message_tlv_get_hit:
  assumes "msg_length m \<le> length (msg_tlv m)" "k < msg_length m"
    "tlv_type (msg_tlv m ! k) = ty" "\<forall>j<k. tlv_type (msg_tlv m ! j) \<noteq> ty"
  shows "message_tlv_get m ty d =
           (if unat (tlv_length (msg_tlv m ! k)) \<le> length d
            then Inr (MESSAGE_SUCCESS, memcpy d 0 (tlv_bytes (msg_tlv m ! k)))
            else Inl AssertionFailed)"
proof -
  have "find (\<lambda>t. tlv_type t = ty) (records m) = Some (records m ! k)"
    using assms by (intro find_first_index) (simp_all add: records_def)
  moreover have "records m ! k = msg_tlv m ! k"
    using assms by (simp add: records_def)
  ultimately show ?thesis
    by (simp add: message_tlv_get_find [OF assms(1)])
qed

lemma message_tlv_get_miss:
  assumes "msg_length m \<le> length (msg_tlv m)"
  shows "(\<forall>j<msg_length m. tlv_type (msg_tlv m ! j) \<noteq> ty)
         \<longleftrightarrow> (\<exists>d'. message_tlv_get m ty d = Inr (MESSAGE_ERROR_TLV_NOT_FOUND, d'))"
proof -
  have "(find (\<lambda>t. tlv_type t = ty) (records m) = None)
        \<longleftrightarrow> (\<forall>j<msg_length m. tlv_type (msg_tlv m ! j) \<noteq> ty)"
    using assms by (auto simp: find_None_iff records_def in_set_conv_nth)
  then show ?thesis
    by (auto simp: message_tlv_get_find [OF assms] split: option.splits)
qed

text \<open>
  C5: \<^verbatim>\<open>message_tlv_get\<close> returns \<^verbatim>\<open>MESSAGE_ERROR_TLV_NOT_FOUND\<close> exactly when no
  counted record has the requested type, and then leaves the destination alone. Otherwise it is the
  first record of that type, in insertion order, that decides the call, whatever follows
  it: when the destination is large enough for it, the call returns \<^verbatim>\<open>MESSAGE_SUCCESS\<close>
  and the destination starts with that record's value bytes.
\<close>

theorem message_tlv_get_first:
  assumes "message_valid m"
  shows "((\<exists>d'. message_tlv_get m ty d = Inr (MESSAGE_ERROR_TLV_NOT_FOUND, d'))
            \<longleftrightarrow> (\<forall>j<msg_length m. tlv_type (msg_tlv m ! j) \<noteq> ty))
       \<and> ((\<forall>j<msg_length m. tlv_type (msg_tlv m ! j) \<noteq> ty)
            \<longrightarrow> message_tlv_get m ty d = Inr (MESSAGE_ERROR_TLV_NOT_FOUND, d))
       \<and> (\<forall>k v. k < msg_length m \<and> tlv_type (msg_tlv m ! k) = ty
                \<and> (\<forall>j<k. tlv_type (msg_tlv m ! j) \<noteq> ty)
                \<and> tlv_value (msg_tlv m ! k) = Some v \<and> length v \<le> length d
            \<longrightarrow> message_tlv_get m ty d = Inr (MESSAGE_SUCCESS, v @ drop (length v) d))"
proof -
  have len: "msg_length m \<le> length (msg_tlv m)"
    using assms by (simp add: message_valid_def)
  have hit: "message_tlv_get m ty d = Inr (MESSAGE_SUCCESS, v @ drop (length v) d)"
    if k: "k < msg_length m" "tlv_type (msg_tlv m ! k) = ty"
      "\<forall>j<k. tlv_type (msg_tlv m ! j) \<noteq> ty"
      and v: "tlv_value (msg_tlv m ! k) = Some v" "length v \<le> length d" for k v
  proof -
    have "tlv_valid (msg_tlv m ! k)"
      by (rule records_valid [OF assms k(1)])
    then have "unat (tlv_length (msg_tlv m ! k)) = length v" "tlv_bytes (msg_tlv m ! k) = v"
      using v(1) by (simp_all add: tlv_valid_def tlv_bytes_def buffer_def)
    then show ?thesis
      using message_tlv_get_hit [OF len k, of d] v(2) by (simp add: memcpy_def)
  qed
  have miss: "message_tlv_get m ty d = Inr (MESSAGE_ERROR_TLV_NOT_FOUND, d)"
    if "\<forall>j<msg_length m. tlv_type (msg_tlv m ! j) \<noteq> ty"
  proof -
    have "find (\<lambda>t. tlv_type t = ty) (records m) = None"
      using that len by (auto simp: find_None_iff records_def in_set_conv_nth)
    then show ?thesis
      by (simp add: message_tlv_get_find [OF len])
  qed
  show ?thesis
    using message_tlv_get_miss [OF len, of ty d] hit miss by blast
qed

theorem message_tlv_get_first_witness:
  "message_valid example_duplicates
   \<and> message_tlv_get example_duplicates TLV_COMMAND [0xEE] = Inr (MESSAGE_SUCCESS, [2])
   \<and> message_tlv_get example_duplicates TLV_REPLY [0xEE] = Inr (MESSAGE_ERROR_TLV_NOT_FOUND, [0xEE])"
proof -
  have valid: "message_valid example_duplicates"
    by (simp add: message_valid_def example_duplicates_def records_def MAX_TLV_COUNT_def
        tlv_valid_def example_command_def example_reading_def example_command2_def)
  have n: "msg_length example_duplicates = 3"
    by (simp add: example_duplicates_def)
  have nth: "msg_tlv example_duplicates ! 0 = example_reading"
    "msg_tlv example_duplicates ! 1 = example_command"
    "msg_tlv example_duplicates ! Suc 0 = example_command"
    "msg_tlv example_duplicates ! 2 = example_command2"
    by (simp_all add: example_duplicates_def)
  have types: "tlv_type example_reading = 5" "tlv_type example_command = 1"
    "tlv_type example_command2 = 1" "tlv_value example_command = Some [2]"
    by (simp_all add: example_command_def example_reading_def example_command2_def)
  have all3: "(\<forall>j<3. P j) \<longleftrightarrow> P 0 \<and> P 1 \<and> P (2::nat)" for P
    by (auto simp: less_Suc_eq numeral_3_eq_3 numeral_2_eq_2)
  have "k < msg_length example_duplicates \<and> tlv_type (msg_tlv example_duplicates ! k) = TLV_COMMAND
          \<and> (\<forall>j<k. tlv_type (msg_tlv example_duplicates ! j) \<noteq> TLV_COMMAND)
          \<and> tlv_value (msg_tlv example_duplicates ! k) = Some v \<and> length v \<le> length [0xEE :: uint8_t]
        \<longrightarrow> message_tlv_get example_duplicates TLV_COMMAND [0xEE]
              = Inr (MESSAGE_SUCCESS, v @ drop (length v) [0xEE])" for k v
    using message_tlv_get_first [OF valid, of TLV_COMMAND "[0xEE]"] by blast
  from this [of 1 "[2]"]
  have "message_tlv_get example_duplicates TLV_COMMAND [0xEE] = Inr (MESSAGE_SUCCESS, [2])"
    by (simp add: n nth types TLV_COMMAND_def)
  moreover have "message_tlv_get example_duplicates TLV_REPLY [0xEE]
                 = Inr (MESSAGE_ERROR_TLV_NOT_FOUND, [0xEE])"
    using message_tlv_get_first [OF valid, of TLV_REPLY "[0xEE]"]
    by (simp add: n nth types TLV_REPLY_def all3)
  ultimately show ?thesis
    using valid by simp
qed

section \<open>message_checksum and message_tlv_add_checksum\<close>

lemma message_checksum_loop_foldl:
  "msg_length m \<le> length (msg_tlv m) \<Longrightarrow>
   message_checksum_loop crc m i c = foldl (\<lambda>c t. crc c (tlv_bytes t)) c (drop i (records m))"
proof (induction crc m i c rule: message_checksum_loop.induct)
  case (1 crc message i checksum)
  show ?case
  proof (cases "i < msg_length message")
    case True
    have "message_checksum_loop crc message i checksum =
          message_checksum_loop crc message (i + 1) (crc checksum (tlv_bytes (msg_tlv message ! i)))"
      using True by (subst message_checksum_loop.simps) simp
    also have "\<dots> = foldl (\<lambda>c t. crc c (tlv_bytes t)) (crc checksum (tlv_bytes (msg_tlv message ! i)))
                       (drop (i + 1) (records message))"
      using 1 True by simp
    also have "\<dots> = foldl (\<lambda>c t. crc c (tlv_bytes t)) checksum (drop i (records message))"
      using True "1.prems" by (subst (2) drop_records) simp_all
    finally show ?thesis .
  next
    case False
    then show ?thesis
      using "1.prems" by (subst message_checksum_loop.simps) (simp add: drop_records_Nil)
  qed
qed

lemma message_checksum_running:
  "msg_length m \<le> length (msg_tlv m) \<Longrightarrow>
   message_checksum e crc m = htonl e (running_crc crc (records m))"
  by (simp add: message_checksum_def running_crc_def message_checksum_loop_foldl)

lemma message_tlv_add_keeps:
  assumes "message_tlv_add malloc_ok m ty len val = Inr (result, m')" "j < msg_length m"
  shows "msg_tlv m' ! j = msg_tlv m ! j"
  using assms
  by (auto simp: message_tlv_add_def Let_def set_tlv_value_def set_tlv_length_def
      set_tlv_type_def split: if_splits)

lemma message_tlv_add_checksum_success:
  assumes "msg_length m < MAX_TLV_COUNT" "length (msg_tlv m) = MAX_TLV_COUNT"
  shows "message_tlv_add_checksum e crc True m =
           Inr (MESSAGE_SUCCESS,
                m\<lparr>msg_tlv := (msg_tlv m)[msg_length m :=
                                 \<lparr>tlv_type = TLV_CHECKSUM, tlv_length = 4,
                                  tlv_value = Some (be32 (running_crc crc (records m)))\<rparr>],
                  msg_length := msg_length m + 1\<rparr>)"
proof -
  have len: "msg_length m \<le> length (msg_tlv m)"
    using assms by simp
  have bytes: "bytes_of_uint32 e (message_checksum e crc m) = be32 (running_crc crc (records m))"
    by (simp add: message_checksum_running [OF len] bytes_of_uint32_htonl)
  have "unat (4 :: uint16_t) \<le> length (be32 (running_crc crc (records m)))"
    by (simp add: length_be32)
  from message_tlv_add_success [OF assms this, of TLV_CHECKSUM]
  show ?thesis
    by (simp add: message_tlv_add_checksum_def bytes sizeof_uint32_t_def length_be32)
qed

text \<open>
  C8: the bytes of \<^verbatim>\<open>message_checksum\<close> in memory are the big-endian bytes of the CRC32
  that starts at 0 and runs, in record order, over the value bytes of the counted records
  and over nothing else. \<^verbatim>\<open>message_tlv_add_checksum\<close> on a message with room appends
  a record of type \<^verbatim>\<open>TLV_CHECKSUM\<close> and length 4 with those bytes as its value, and a later
  add leaves that record as it is.
\<close>

theorem message_checksum_coverage:
  assumes "message_valid m"
  shows "message_checksum e crc m = htonl e (foldl crc 0 (map tlv_bytes (records m)))
       \<and> bytes_of_uint32 e (message_checksum e crc m)
           = be32 (foldl crc 0 (map tlv_bytes (records m)))
       \<and> (msg_length m < MAX_TLV_COUNT \<longrightarrow>
            (\<exists>m'. message_tlv_add_checksum e crc True m = Inr (MESSAGE_SUCCESS, m')
                \<and> msg_length m' = msg_length m + 1
                \<and> records m' = records m @
                     [\<lparr>tlv_type = TLV_CHECKSUM, tlv_length = 4,
                       tlv_value = Some (be32 (foldl crc 0 (map tlv_bytes (records m))))\<rparr>]
                \<and> (\<forall>ok ty len val result m''.
                      message_tlv_add ok m' ty len val = Inr (result, m'')
                      \<longrightarrow> msg_tlv m'' ! msg_length m =
                            \<lparr>tlv_type = TLV_CHECKSUM, tlv_length = 4,
                             tlv_value = Some (be32 (foldl crc 0 (map tlv_bytes (records m))))\<rparr>)))"
proof -
  have len: "msg_length m \<le> length (msg_tlv m)" and slots: "length (msg_tlv m) = MAX_TLV_COUNT"
    using assms by (simp_all add: message_valid_def)
  have run: "running_crc crc (records m) = foldl crc 0 (map tlv_bytes (records m))"
    by (simp add: running_crc_def foldl_map)
  have sum: "message_checksum e crc m = htonl e (foldl crc 0 (map tlv_bytes (records m)))"
    using message_checksum_running [OF len, of e crc] by (simp add: run)
  have bytes: "bytes_of_uint32 e (message_checksum e crc m)
               = be32 (foldl crc 0 (map tlv_bytes (records m)))"
    by (simp add: sum bytes_of_uint32_htonl)
  have add: "\<exists>m'. message_tlv_add_checksum e crc True m = Inr (MESSAGE_SUCCESS, m')
                \<and> msg_length m' = msg_length m + 1
                \<and> records m' = records m @
                     [\<lparr>tlv_type = TLV_CHECKSUM, tlv_length = 4,
                       tlv_value = Some (be32 (foldl crc 0 (map tlv_bytes (records m))))\<rparr>]
                \<and> (\<forall>ok ty len val result m''.
                      message_tlv_add ok m' ty len val = Inr (result, m'')
                      \<longrightarrow> msg_tlv m'' ! msg_length m =
                            \<lparr>tlv_type = TLV_CHECKSUM, tlv_length = 4,
                             tlv_value = Some (be32 (foldl crc 0 (map tlv_bytes (records m))))\<rparr>)"
    if room: "msg_length m < MAX_TLV_COUNT"
  proof -
    define t where "t = \<lparr>tlv_type = TLV_CHECKSUM, tlv_length = 4,
                         tlv_value = Some (be32 (foldl crc 0 (map tlv_bytes (records m))))\<rparr>"
    define m' where "m' = m\<lparr>msg_tlv := (msg_tlv m)[msg_length m := t],
                            msg_length := msg_length m + 1\<rparr>"
    have i: "msg_length m < length (msg_tlv m)"
      using room slots by simp
    have 1: "message_tlv_add_checksum e crc True m = Inr (MESSAGE_SUCCESS, m')"
      using message_tlv_add_checksum_success [OF room slots, of e crc]
      by (simp add: m'_def t_def run)
    have 2: "msg_length m' = msg_length m + 1"
      by (simp add: m'_def)
    have 3: "records m' = records m @ [t]"
      unfolding m'_def by (rule records_append [OF i])
    have 4: "msg_tlv m'' ! msg_length m = t"
      if "message_tlv_add ok m' ty len val = Inr (result, m'')" for ok ty len val result m''
    proof -
      have "msg_tlv m'' ! msg_length m = msg_tlv m' ! msg_length m"
        using message_tlv_add_keeps [OF that, of "msg_length m"] 2 by simp
      then show ?thesis
        using i by (simp add: m'_def)
    qed
    show ?thesis
      using 1 2 3 4 unfolding t_def by blast
  qed
  show ?thesis
    using sum bytes add by blast
qed

theorem message_checksum_coverage_witness:
  "message_valid example_message
   \<and> bytes_of_uint32 LittleEndian (message_checksum LittleEndian crc32 example_message)
       = [0xA5, 0x85, 0x89, 0x1A]
   \<and> msg_length example_message < MAX_TLV_COUNT
   \<and> (\<exists>m'. message_tlv_add_checksum LittleEndian crc32 True example_message
              = Inr (MESSAGE_SUCCESS, m')
          \<and> records m' = [example_command, example_reading,
                           \<lparr>tlv_type = TLV_CHECKSUM, tlv_length = 4,
                            tlv_value = Some [0xA5, 0x85, 0x89, 0x1A]\<rparr>])"
proof -
  have r: "records example_message = [example_command, example_reading]"
    by (simp add: example_message_def records_def)
  have b: "tlv_bytes example_command = [2]" "tlv_bytes example_reading = [0x12, 0x34]"
    by (simp_all add: example_command_def example_reading_def tlv_bytes_def buffer_def)
  have c: "be32 (crc32 (crc32 0 [2]) [0x12, 0x34]) = [0xA5, 0x85, 0x89, 0x1A]"
    by code_simp
  have n: "msg_length example_message < MAX_TLV_COUNT"
    by (simp add: example_message_def MAX_TLV_COUNT_def)
  show ?thesis
    using message_checksum_coverage [OF example_message_valid, of LittleEndian crc32] n
    by (auto simp: r b c example_message_valid)
qed

section \<open>Motor positions\<close>

lemma ntohl_be32: "ntohl e (uint32_of_bytes e (be32 w)) = w"
  by (simp add: be32_def ntohl_uint32_of_bytes be32_decode_be32)

lemma bytes_of_motor_position_htonl:
  "bytes_of_motor_position e
     \<lparr>pos_x = htonl e x, pos_y = htonl e y, pos_z = htonl e z\<rparr>
   = be32 x @ be32 y @ be32 z"
  by (simp add: bytes_of_motor_position_def bytes_of_uint32_htonl)

lemma motor_position_of_be32:
  "motor_position_of_bytes e (be32 x @ be32 y @ be32 z)
   = \<lparr>pos_x = uint32_of_bytes e (be32 x), pos_y = uint32_of_bytes e (be32 y),
      pos_z = uint32_of_bytes e (be32 z)\<rparr>"
  by (simp add: motor_position_of_bytes_def length_be32)

lemma length_bytes_of_motor_position: "length (bytes_of_motor_position e p) = 12"
  by (simp add: bytes_of_motor_position_def length_bytes_of_uint32)

text \<open>
  C9: on a well-formed message with room and without a motor position record,
  \<^verbatim>\<open>message_tlv_add_motor_position\<close> appends a record of type \<^verbatim>\<open>TLV_MOTOR_POSITION\<close> and
  length 12 whose value is the big-endian encodings of \<open>x\<close>, \<open>y\<close> and \<open>z\<close>, four bytes
  each and in this order, and \<^verbatim>\<open>message_tlv_get_motor_position\<close> on the result returns the
  same three values, whatever the caller's structure held before and whatever the byte
  order of the host.
\<close>

theorem motor_position_roundtrip:
  assumes "message_valid m" "msg_length m < MAX_TLV_COUNT"
    "\<forall>j<msg_length m. tlv_type (msg_tlv m ! j) \<noteq> TLV_MOTOR_POSITION"
  shows "\<exists>m'. message_tlv_add_motor_position e True m p = Inr (MESSAGE_SUCCESS, m')
             \<and> records m' = records m @
                  [\<lparr>tlv_type = TLV_MOTOR_POSITION, tlv_length = 12,
                    tlv_value = Some (be32 (pos_x p) @ be32 (pos_y p) @ be32 (pos_z p))\<rparr>]
             \<and> message_tlv_get_motor_position e m' p0 = Inr (MESSAGE_SUCCESS, p)"
proof -
  define v where "v = be32 (pos_x p) @ be32 (pos_y p) @ be32 (pos_z p)"
  define t where "t = \<lparr>tlv_type = TLV_MOTOR_POSITION, tlv_length = 12, tlv_value = Some v\<rparr>"
  define m' where "m' = m\<lparr>msg_tlv := (msg_tlv m)[msg_length m := t],
                          msg_length := msg_length m + 1\<rparr>"
  have slots: "length (msg_tlv m) = MAX_TLV_COUNT"
    using assms(1) by (simp add: message_valid_def)
  have i: "msg_length m < length (msg_tlv m)"
    using assms(2) slots by simp
  have lv: "length v = 12"
    by (simp add: v_def length_be32)
  have "unat (12 :: uint16_t) \<le> length v"
    by (simp add: lv)
  from message_tlv_add_success [OF assms(2) slots this, of TLV_MOTOR_POSITION]
  have add: "message_tlv_add_motor_position e True m p = Inr (MESSAGE_SUCCESS, m')"
    by (simp add: message_tlv_add_motor_position_def bytes_of_motor_position_htonl
        sizeof_tlv_motor_position_t_def v_def [symmetric] lv m'_def t_def)
  have recs: "records m' = records m @ [t]"
    unfolding m'_def by (rule records_append [OF i])
  have "message_tlv_get m' TLV_MOTOR_POSITION (bytes_of_motor_position e p0) =
          (if unat (tlv_length (msg_tlv m' ! msg_length m))
                \<le> length (bytes_of_motor_position e p0)
           then Inr (MESSAGE_SUCCESS,
                     memcpy (bytes_of_motor_position e p0) 0 (tlv_bytes (msg_tlv m' ! msg_length m)))
           else Inl AssertionFailed)"
  proof (rule message_tlv_get_hit)
    show "msg_length m' \<le> length (msg_tlv m')"
      using i by (simp add: m'_def)
    show "msg_length m < msg_length m'"
      by (simp add: m'_def)
    show "tlv_type (msg_tlv m' ! msg_length m) = TLV_MOTOR_POSITION"
      using i by (simp add: m'_def t_def)
    show "\<forall>j<msg_length m. tlv_type (msg_tlv m' ! j) \<noteq> TLV_MOTOR_POSITION"
      using assms(3) by (simp add: m'_def)
  qed
  moreover have "msg_tlv m' ! msg_length m = t"
    using i by (simp add: m'_def)
  moreover have "tlv_bytes t = v" "unat (tlv_length t) = 12"
    by (simp_all add: t_def tlv_bytes_def buffer_def lv)
  ultimately have get: "message_tlv_get m' TLV_MOTOR_POSITION (bytes_of_motor_position e p0)
                        = Inr (MESSAGE_SUCCESS, v)"
    by (simp add: length_bytes_of_motor_position memcpy_def lv)
  have "message_tlv_get_motor_position e m' p0 = Inr (MESSAGE_SUCCESS, p)"
    by (simp add: message_tlv_get_motor_position_def get v_def motor_position_of_be32 ntohl_be32)
  then show ?thesis
    using add recs unfolding t_def v_def by blast
qed

theorem motor_position_roundtrip_witness:
  "message_valid message_init \<and> msg_length message_init < MAX_TLV_COUNT
   \<and> (\<exists>m'. message_tlv_add_motor_position LittleEndian True message_init example_position
              = Inr (MESSAGE_SUCCESS, m')
          \<and> records m' =
               [\<lparr>tlv_type = TLV_MOTOR_POSITION, tlv_length = 12,
                 tlv_value = Some [0xFF, 0xFF, 0xFF, 0xFF, 0x00, 0x0F, 0x42, 0x40, 0, 0, 0, 0]\<rparr>]
          \<and> message_tlv_get_motor_position LittleEndian m' \<lparr>pos_x = 5, pos_y = 6, pos_z = 7\<rparr>
              = Inr (MESSAGE_SUCCESS, example_position))"
proof -
  have valid: "message_valid message_init"
    by (simp add: message_valid_def message_init_def records_def MAX_TLV_COUNT_def)
  have room: "msg_length message_init < MAX_TLV_COUNT"
    by (simp add: message_init_def MAX_TLV_COUNT_def)
  have none: "\<forall>j<msg_length message_init. tlv_type (msg_tlv message_init ! j) \<noteq> TLV_MOTOR_POSITION"
    by (simp add: message_init_def)
  have r: "records message_init = []"
    by (simp add: message_init_def records_def)
  have b: "be32 (pos_x example_position) @ be32 (pos_y example_position) @ be32 (pos_z example_position)
           = [0xFF, 0xFF, 0xFF, 0xFF, 0x00, 0x0F, 0x42, 0x40, 0, 0, 0, 0]"
    by code_simp
  show ?thesis
    using motor_position_roundtrip [OF valid room none, of LittleEndian example_position
        "\<lparr>pos_x = 5, pos_y = 6, pos_z = 7\<rparr>"]
    by (simp add: valid room none r b)
qed

section \<open>One pass of the parser\<close>

lemma take2_drop:
  "k + 2 \<le> length data \<Longrightarrow> take 2 (drop k data) = [data ! k, data ! (k + 1)]"
  by (simp add: numeral_2_eq_2 take_Suc_conv_app_nth)

lemma memcmp_first_byte:
  "memcmp (a # as) (b # bs) 1 \<noteq> 0 \<longleftrightarrow> a \<noteq> b"
  by simp

lemma records_slot_update:
  "records (m\<lparr>msg_tlv := (msg_tlv m)[msg_length m := t]\<rparr>) = records m"
  by (simp add: records_def)

lemma message_checksum_slot_update:
  assumes "msg_length m \<le> length (msg_tlv m)"
  shows "message_checksum e crc (m\<lparr>msg_tlv := (msg_tlv m)[msg_length m := t]\<rparr>)
         = htonl e (running_crc crc (records m))"
proof -
  have "msg_length (m\<lparr>msg_tlv := (msg_tlv m)[msg_length m := t]\<rparr>)
        \<le> length (msg_tlv (m\<lparr>msg_tlv := (msg_tlv m)[msg_length m := t]\<rparr>))"
    using assms by simp
  from message_checksum_running [OF this, of e crc] show ?thesis
    using records_slot_update [of m t] by simp
qed

text \<open>
  What one pass of the loop does, in terms of the bytes at the offset: it needs three
  bytes of header and the declared number of value bytes, then a buffer, and for a record
  of type \<^verbatim>\<open>TLV_CHECKSUM\<close> it compares the first byte of the checksum of the records
  counted so far with the first byte of the value.
\<close>

lemma message_parse_body_eq:
  assumes "msg_length m < MAX_TLV_COUNT" "length (msg_tlv m) = MAX_TLV_COUNT"
  shows "message_parse_body e crc malloc_ok data m offset =
     (if length data < offset + 3 then Break (Inr (MESSAGE_ERROR_PARSE_ERROR, message_init))
      else
        let len = be16_decode (data ! (offset + 1)) (data ! (offset + 2));
            v = take (unat len) (drop (offset + 3) data)
        in if length data < offset + 3 + unat len
           then Break (Inr (MESSAGE_ERROR_PARSE_ERROR, message_init))
           else if \<not> malloc_ok (msg_length m)
           then Break (Inr (MESSAGE_ERROR_OUT_OF_MEMORY, message_init))
           else if data ! offset = TLV_CHECKSUM \<and> v = []
           then Break (Inl InvalidRead)
           else if data ! offset = TLV_CHECKSUM
                   \<and> hd (be32 (running_crc crc (records m))) \<noteq> hd v
           then Break (Inr (MESSAGE_ERROR_CHECKSUM_MISMATCH, message_init))
           else Continue
                  (m\<lparr>msg_tlv := (msg_tlv m)[msg_length m :=
                                    \<lparr>tlv_type = data ! offset, tlv_length = len,
                                     tlv_value = Some v\<rparr>],
                     msg_length := msg_length m + 1\<rparr>,
                   offset + 3 + unat len))"
proof (cases "length data < offset + 3")
  case True
  then show ?thesis
    using assms(1) by (simp add: message_parse_body_def Let_def message_free_def)
next
  case header: False
  define len where "len = be16_decode (data ! (offset + 1)) (data ! (offset + 2))"
  define v where "v = take (unat len) (drop (offset + 1 + 2) data)"
  define t where "t = \<lparr>tlv_type = data ! offset, tlv_length = len, tlv_value = Some v\<rparr>"
  have o3: "offset + 1 + 2 = offset + 3"
    by arith
  have v3: "take (unat len) (drop (offset + 3) data) = v"
    by (simp only: v_def o3)
  have i: "msg_length m < length (msg_tlv m)" "\<not> MAX_TLV_COUNT \<le> msg_length m"
    using assms by simp_all
  have rd: "ntohs e (uint16_of_bytes e (take 2 (drop (offset + 1) data))) = len"
    using header by (simp add: take2_drop ntohs_uint16_of_bytes len_def add.commute)
  define m1 where "m1 = set_tlv_type m (msg_length m) (data ! offset)"
  define m2 where
    "m2 = set_tlv_length m1 (msg_length m) (uint16_of_bytes e (take 2 (drop (offset + 1) data)))"
  define m3 where
    "m3 = set_tlv_length m2 (msg_length m) (ntohs e (tlv_length (msg_tlv m2 ! msg_length m)))"
  define m4 where "m4 = set_tlv_value m3 (msg_length m) (Some v)"
  have l3: "tlv_length (msg_tlv m3 ! msg_length m) = len"
    using i(1) rd by (simp add: m3_def m2_def m1_def set_tlv_length_def set_tlv_type_def)
  have m4: "m4 = m\<lparr>msg_tlv := (msg_tlv m)[msg_length m := t]\<rparr>"
    using i(1) rd
    by (simp add: m4_def m3_def m2_def m1_def t_def set_tlv_length_def set_tlv_type_def
        set_tlv_value_def tlv_update_all)
  have n4: "msg_length m4 = msg_length m" "msg_tlv m4 ! msg_length m = t"
    using i(1) by (simp_all add: m4)
  have val: "buffer (tlv_value t) = v" "tlv_type t = data ! offset"
    by (simp_all add: t_def buffer_def)
  have cs: "message_checksum e crc m4 = htonl e (running_crc crc (records m))"
    unfolding m4
    by (rule message_checksum_slot_update) (use assms in simp)
  have cmp: "memcmp (bytes_of_uint32 e (message_checksum e crc m4)) v 1 \<noteq> 0
             \<longleftrightarrow> hd (be32 (running_crc crc (records m))) \<noteq> hd v" if ne: "v \<noteq> []"
  proof -
    obtain b bs where v: "v = b # bs"
      using ne by (cases v) auto
    obtain a as where c: "be32 (running_crc crc (records m)) = a # as"
      by (simp add: be32_def)
    show ?thesis
      by (simp only: cs bytes_of_uint32_htonl c v memcmp_first_byte list.sel)
  qed
  have empty: "length v < 1 \<longleftrightarrow> v = []"
    by (cases v) simp_all
  have "message_parse_body e crc malloc_ok data m offset =
     (if offset + 1 + 2 + unat len > length data
      then Break (Inr (MESSAGE_ERROR_PARSE_ERROR, message_free m3))
      else if \<not> malloc_ok (msg_length m)
      then Break (Inr (MESSAGE_ERROR_OUT_OF_MEMORY,
                       message_free (set_tlv_value m3 (msg_length m) None)))
      else if tlv_type (msg_tlv m4 ! msg_length m) = TLV_CHECKSUM
      then if length (buffer (tlv_value (msg_tlv m4 ! msg_length m))) < 1
           then Break (Inl InvalidRead)
           else if memcmp (bytes_of_uint32 e (message_checksum e crc m4))
                     (buffer (tlv_value (msg_tlv m4 ! msg_length m))) 1 \<noteq> 0
           then Break (Inr (MESSAGE_ERROR_CHECKSUM_MISMATCH, message_free m4))
           else Continue (m4\<lparr>msg_length := msg_length m4 + 1\<rparr>, offset + 1 + 2 + unat len)
      else Continue (m4\<lparr>msg_length := msg_length m4 + 1\<rparr>, offset + 1 + 2 + unat len))"
    using header i(2)
    unfolding message_parse_body_def Let_def m1_def [symmetric]
      m2_def [symmetric] m3_def [symmetric] l3 v_def [symmetric] sizeof_uint32_t_def
    by (simp add: m4_def)
  then have body: "message_parse_body e crc malloc_ok data m offset =
     (if offset + 3 + unat len > length data
      then Break (Inr (MESSAGE_ERROR_PARSE_ERROR, message_init))
      else if \<not> malloc_ok (msg_length m)
      then Break (Inr (MESSAGE_ERROR_OUT_OF_MEMORY, message_init))
      else if data ! offset = TLV_CHECKSUM
      then if v = []
           then Break (Inl InvalidRead)
           else if memcmp (bytes_of_uint32 e (message_checksum e crc m4)) v 1 \<noteq> 0
           then Break (Inr (MESSAGE_ERROR_CHECKSUM_MISMATCH, message_init))
           else Continue (m4\<lparr>msg_length := msg_length m + 1\<rparr>, offset + 3 + unat len)
      else Continue (m4\<lparr>msg_length := msg_length m + 1\<rparr>, offset + 3 + unat len))"
    by (simp only: n4 val empty message_free_def o3)
  have upd: "m4\<lparr>msg_length := msg_length m + 1\<rparr>
             = m\<lparr>msg_tlv := (msg_tlv m)[msg_length m := t], msg_length := msg_length m + 1\<rparr>"
    by (simp add: m4)
  show ?thesis
  proof (cases "v = []")
    case True
    then show ?thesis
      using header
      unfolding body Let_def len_def [symmetric] v3 upd t_def [symmetric]
      by simp
  next
    case False
    then show ?thesis
      using header cmp [OF False]
      unfolding body Let_def len_def [symmetric] v3 upd t_def [symmetric]
      by simp
  qed
qed

section \<open>Messages built from message_init\<close>

lemma message_of_Nil: "message_of [] = message_init"
  by (simp add: message_of_def message_init_def)

lemma message_of_fields:
  "msg_length (message_of ts) = length ts"
  "length ts \<le> MAX_TLV_COUNT \<Longrightarrow> length (msg_tlv (message_of ts)) = MAX_TLV_COUNT"
  "length ts \<le> MAX_TLV_COUNT \<Longrightarrow> records (message_of ts) = ts"
  by (simp_all add: message_of_def records_def)

lemma message_of_snoc:
  assumes "length ts < MAX_TLV_COUNT"
  shows "(message_of ts)\<lparr>msg_tlv := (msg_tlv (message_of ts))[msg_length (message_of ts) := t],
                          msg_length := msg_length (message_of ts) + 1\<rparr>
         = message_of (ts @ [t])"
proof -
  obtain k where k: "MAX_TLV_COUNT - length ts = Suc k"
    using assms by (cases "MAX_TLV_COUNT - length ts") simp_all
  then have "MAX_TLV_COUNT - Suc (length ts) = k"
    by simp
  then show ?thesis
    by (simp add: message_of_def k list_update_append)
qed

lemma message_of_valid:
  "length ts \<le> MAX_TLV_COUNT \<Longrightarrow> list_all tlv_valid ts \<Longrightarrow> message_valid (message_of ts)"
  by (simp add: message_valid_def message_of_fields)

lemma tlv_valid_buffer: "tlv_valid t \<Longrightarrow> tlv_value t = Some (tlv_bytes t)"
  by (auto simp: tlv_valid_def tlv_bytes_def buffer_def split: option.splits)

lemma tlv_valid_eq:
  "tlv_valid t \<Longrightarrow>
   \<lparr>tlv_type = tlv_type t, tlv_length = tlv_length t, tlv_value = Some (tlv_bytes t)\<rparr> = t"
  by (cases t) (auto simp: tlv_valid_def tlv_bytes_def buffer_def split: option.splits)

text \<open>What the parser reads at the start of a record in wire format.\<close>

lemma wire_record_reads:
  assumes "tlv_valid t"
  shows "(pre @ wire_record t @ post) ! length pre = tlv_type t"
    and "be16_decode ((pre @ wire_record t @ post) ! (length pre + 1))
           ((pre @ wire_record t @ post) ! (length pre + 2)) = tlv_length t"
    and "take (unat (tlv_length t)) (drop (length pre + 3) (pre @ wire_record t @ post))
         = tlv_bytes t"
    and "length (pre @ wire_record t @ post)
         = length pre + 3 + unat (tlv_length t) + length post"
proof -
  have w: "wire_record t = tlv_type t # ucast (drop_bit 8 (tlv_length t))
                             # ucast (tlv_length t) # tlv_bytes t"
    by (simp add: wire_record_def be16_def)
  have l: "length (tlv_bytes t) = unat (tlv_length t)"
    by (rule tlv_valid_bytes [OF assms])
  show "(pre @ wire_record t @ post) ! length pre = tlv_type t"
    by (simp add: w)
  show "be16_decode ((pre @ wire_record t @ post) ! (length pre + 1))
           ((pre @ wire_record t @ post) ! (length pre + 2)) = tlv_length t"
    by (simp add: w nth_append be16_decode_be16)
  have "drop (length pre + 3) (pre @ wire_record t @ post) = tlv_bytes t @ post"
    by (simp add: w)
  then show "take (unat (tlv_length t)) (drop (length pre + 3) (pre @ wire_record t @ post))
         = tlv_bytes t"
    by (simp add: l)
  show "length (pre @ wire_record t @ post)
         = length pre + 3 + unat (tlv_length t) + length post"
    by (simp add: w l)
qed

text \<open>
  One pass over a record in wire format, from a message built from \<^verbatim>\<open>message_init\<close>:
  the record is appended when it is not of type \<^verbatim>\<open>TLV_CHECKSUM\<close> or when its first value byte
  is the first byte of the checksum of the records before it. So the parser accepts the
  wire format of such records.
\<close>

lemma checksums_ok_pass:
  "list_all tlv_valid ts \<Longrightarrow> checksums_ok crc prev ts \<Longrightarrow> checksums_pass crc prev ts"
proof (induction ts arbitrary: prev)
  case Nil
  then show ?case by simp
next
  case (Cons t ts)
  have "tlv_bytes t = buffer (tlv_value t)"
    using Cons.prems(1) tlv_valid_buffer [of t] by (simp add: buffer_def)
  then have "checksum_record_passes crc prev t"
    using Cons.prems(2) by (auto simp: checksum_record_passes_def checksum_record_ok_def be32_def)
  then show ?case
    using Cons by simp
qed

lemma message_parse_body_accepts:
  assumes "tlv_valid t" "length done < MAX_TLV_COUNT" "malloc_ok (length done)"
    "checksum_record_passes crc done t"
  shows "message_parse_body e crc malloc_ok (pre @ wire_record t @ post) (message_of done)
           (length pre)
         = Continue (message_of (done @ [t]), length (pre @ wire_record t))"
proof -
  let ?data = "pre @ wire_record t @ post"
  let ?m = "message_of done"
  have le: "length done \<le> MAX_TLV_COUNT"
    using assms(2) by simp
  have m: "msg_length ?m < MAX_TLV_COUNT" "length (msg_tlv ?m) = MAX_TLV_COUNT"
    using assms(2) by (simp_all add: message_of_fields)
  note rd = wire_record_reads [OF assms(1), of pre post]
  have ok: "\<not> (tlv_type t = TLV_CHECKSUM \<and> tlv_bytes t = [])"
    "\<not> (tlv_type t = TLV_CHECKSUM \<and> hd (be32 (running_crc crc done)) \<noteq> hd (tlv_bytes t))"
    using assms(4) by (auto simp: checksum_record_passes_def)
  have "message_parse_body e crc malloc_ok ?data ?m (length pre)
        = Continue
            (?m\<lparr>msg_tlv := (msg_tlv ?m)[msg_length ?m :=
                       \<lparr>tlv_type = tlv_type t, tlv_length = tlv_length t,
                        tlv_value = Some (tlv_bytes t)\<rparr>],
                msg_length := msg_length ?m + 1\<rparr>,
             length pre + 3 + unat (tlv_length t))"
    unfolding message_parse_body_eq [OF m] Let_def rd message_of_fields(3) [OF le]
    using assms(3) ok by (simp add: message_of_fields(1))
  then show ?thesis
    using message_of_snoc [OF assms(2), of t]
    by (simp add: tlv_valid_eq [OF assms(1)] length_wire_record [OF assms(1)])
qed

lemma message_parse_loop_accepts:
  assumes "list_all tlv_valid ts" "length done + length ts \<le> MAX_TLV_COUNT"
    "\<forall>k<length ts. malloc_ok (length done + k)" "checksums_pass crc done ts"
  shows "message_parse_loop e crc malloc_ok (pre @ wire_format ts) (message_of done) (length pre)
         = Inr (MESSAGE_SUCCESS, message_of (done @ ts))"
  using assms
proof (induction ts arbitrary: "done" pre)
  case Nil
  then show ?case
    by (subst message_parse_loop.simps) (simp add: wire_format_def)
next
  case (Cons t ts)
  have valid: "tlv_valid t" and lt: "length done < MAX_TLV_COUNT"
    and ok: "malloc_ok (length done)" and cs: "checksum_record_passes crc done t"
    using Cons.prems by auto
  have data: "pre @ wire_format (t # ts) = pre @ wire_record t @ wire_format ts"
    by (simp add: wire_format_def)
  have more: "length pre < length (pre @ wire_record t @ wire_format ts)"
    by (simp add: wire_record_def)
  have "message_parse_loop e crc malloc_ok (pre @ wire_record t @ wire_format ts)
          (message_of done) (length pre)
        = message_parse_loop e crc malloc_ok (pre @ wire_record t @ wire_format ts)
            (message_of (done @ [t])) (length (pre @ wire_record t))"
    using more
    by (subst message_parse_loop.simps)
       (simp add: message_parse_body_accepts [where malloc_ok = malloc_ok, OF valid lt ok cs]
          del: length_append)
  also have "\<dots> = Inr (MESSAGE_SUCCESS, message_of ((done @ [t]) @ ts))"
  proof -
    have 1: "list_all tlv_valid ts"
      using Cons.prems(1) by simp
    have 2: "length (done @ [t]) + length ts \<le> MAX_TLV_COUNT"
      using Cons.prems(2) by simp
    have 3: "\<forall>k<length ts. malloc_ok (length (done @ [t]) + k)"
    proof (intro allI impI)
      fix k assume "k < length ts"
      then have "Suc k < length (t # ts)" by simp
      with Cons.prems(3) have "malloc_ok (length done + Suc k)" by blast
      then show "malloc_ok (length (done @ [t]) + k)" by simp
    qed
    have 4: "checksums_pass crc (done @ [t]) ts"
      using Cons.prems(4) by simp
    from Cons.IH [OF 1 2 3 4, of "pre @ wire_record t"] show ?thesis
      by simp
  qed
  finally show ?case
    by (simp add: data)
qed

text \<open>In particular it accepts checksum records that hold the whole checksum.\<close>

lemma message_parse_loop_wire:
  assumes "list_all tlv_valid ts" "length done + length ts \<le> MAX_TLV_COUNT"
    "\<forall>k<length ts. malloc_ok (length done + k)" "checksums_ok crc done ts"
  shows "message_parse_loop e crc malloc_ok (pre @ wire_format ts) (message_of done) (length pre)
         = Inr (MESSAGE_SUCCESS, message_of (done @ ts))"
  by (rule message_parse_loop_accepts [OF assms(1-3) checksums_ok_pass [OF assms(1,4)]])

section \<open>Round trip\<close>

lemma add_all_message_of:
  assumes "add_all (message_of done) ops = Inr (MESSAGE_SUCCESS, m)"
    "length done \<le> MAX_TLV_COUNT" "list_all tlv_valid done"
  shows "\<exists>ts. m = message_of ts \<and> length ts \<le> MAX_TLV_COUNT \<and> list_all tlv_valid ts"
  using assms
proof (induction ops arbitrary: "done")
  case Nil
  then show ?case by auto
next
  case (Cons op ops)
  obtain ty len val where op: "op = (ty, len, val)"
    by (cases op) auto
  have slots: "length (msg_tlv (message_of done)) = MAX_TLV_COUNT"
    by (rule message_of_fields(2) [OF Cons.prems(2)])
  show ?case
  proof (cases "length done < MAX_TLV_COUNT \<and> unat len \<le> length val")
    case True
    define t where "t = \<lparr>tlv_type = ty, tlv_length = len, tlv_value = Some (take (unat len) val)\<rparr>"
    have lt: "msg_length (message_of done) < MAX_TLV_COUNT"
      using True by (simp add: message_of_fields)
    have "message_tlv_add True (message_of done) ty len val
          = Inr (MESSAGE_SUCCESS, message_of (done @ [t]))"
      using message_tlv_add_success [OF lt slots, of len val ty] True
        message_of_snoc [of "done" t]
      by (simp add: t_def)
    then have "add_all (message_of (done @ [t])) ops = Inr (MESSAGE_SUCCESS, m)"
      using Cons.prems(1) by (simp add: op)
    moreover have "tlv_valid t"
      using True by (simp add: t_def tlv_valid_def)
    then have "length (done @ [t]) \<le> MAX_TLV_COUNT" "list_all tlv_valid (done @ [t])"
      using True Cons.prems(3) by simp_all
    ultimately show ?thesis
      by (rule Cons.IH)
  next
    case False
    then have "\<exists>r. message_tlv_add True (message_of done) ty len val = r
                 \<and> (\<forall>m'. r \<noteq> Inr (MESSAGE_SUCCESS, m'))"
      by (auto simp: message_tlv_add_def Let_def message_of_fields)
    then show ?thesis
      using Cons.prems(1) by (auto simp: op split: sum.splits message_result_t.splits)
  qed
qed

text \<open>
  Round trip for the messages that \<^verbatim>\<open>message_tlv_add\<close> builds from \<^verbatim>\<open>message_init\<close>,
  provided that the records of type \<^verbatim>\<open>TLV_CHECKSUM\<close> hold the checksum of the records
  before them and that the parser gets its buffers.
\<close>

lemma message_roundtrip:
  assumes "add_all message_init ops = Inr (MESSAGE_SUCCESS, m)"
    "checksums_ok crc [] (records m)" "\<forall>i<msg_length m. malloc_ok i"
    "message_serialized_size m \<le> length buf"
  shows "fst (message_serialize e buf m) = int (message_serialized_size m)
       \<and> message_parse e crc malloc_ok
            (take (message_serialized_size m) (snd (message_serialize e buf m)))
          = Inr (MESSAGE_SUCCESS, m)"
proof -
  obtain ts where ts: "m = message_of ts" "length ts \<le> MAX_TLV_COUNT" "list_all tlv_valid ts"
    using add_all_message_of [of "[]" ops m] assms(1) by (auto simp: message_of_Nil)
  have valid: "message_valid m"
    unfolding ts(1) by (rule message_of_valid [OF ts(2,3)])
  have recs: "records m = ts" and count: "msg_length m = length ts"
    by (simp_all add: ts(1) message_of_fields ts(2))
  have size: "message_serialized_size m = wire_size ts"
    using message_serialized_size_wire [of m] valid by (simp add: message_valid_def recs)
  have ser: "message_serialize e buf m = (int (wire_size ts), wire_format ts @ drop (wire_size ts) buf)"
    using message_serialize_fits [OF valid, of buf e] assms(4) by (simp add: recs size)
  have bytes: "take (wire_size ts) (wire_format ts @ drop (wire_size ts) buf) = wire_format ts"
    by (simp add: length_wire_format [OF ts(3)])
  have 2: "length ([] :: tlv_t list) + length ts \<le> MAX_TLV_COUNT"
    using ts(2) by simp
  have 3: "\<forall>k<length ts. malloc_ok (length ([] :: tlv_t list) + k)"
    using assms(3) by (simp add: count)
  have 4: "checksums_ok crc [] ts"
    using assms(2) by (simp add: recs)
  have "message_parse_loop e crc malloc_ok ([] @ wire_format ts) (message_of [])
          (length ([] :: uint8_t list))
        = Inr (MESSAGE_SUCCESS, message_of ([] @ ts))"
    by (rule message_parse_loop_wire [OF ts(3) 2 3 4])
  then have "message_parse e crc malloc_ok (wire_format ts) = Inr (MESSAGE_SUCCESS, m)"
    by (simp add: message_parse_def message_of_Nil ts(1))
  then show ?thesis
    unfolding ser size snd_conv fst_conv bytes by simp
qed

text \<open>
  C2, as the source has it: a message built from \<^verbatim>\<open>message_init\<close> by successful calls of
  \<^verbatim>\<open>message_tlv_add\<close> (the typed adders are such calls), in which every record of type
  \<^verbatim>\<open>TLV_CHECKSUM\<close> holds the checksum of the records before it, is serialized into a buffer
  of at least \<^verbatim>\<open>message_serialized_size\<close> bytes in full, and parsing the bytes written
  gives \<^verbatim>\<open>MESSAGE_SUCCESS\<close> and the same message, provided the parser's allocations succeed.
\<close>

theorem message_roundtrip_checksummed:
  assumes "add_all message_init ops = Inr (MESSAGE_SUCCESS, m)"
    "checksums_ok crc [] (records m)" "\<forall>i<msg_length m. malloc_ok i"
    "message_serialized_size m \<le> length buf"
  shows "fst (message_serialize e buf m) = int (message_serialized_size m)
       \<and> (\<exists>m'. message_parse e crc malloc_ok
                   (take (message_serialized_size m) (snd (message_serialize e buf m)))
                 = Inr (MESSAGE_SUCCESS, m')
               \<and> msg_length m' = msg_length m
               \<and> (\<forall>i<msg_length m.
                      tlv_type (msg_tlv m' ! i) = tlv_type (msg_tlv m ! i)
                    \<and> tlv_length (msg_tlv m' ! i) = tlv_length (msg_tlv m ! i)
                    \<and> tlv_value (msg_tlv m' ! i) = tlv_value (msg_tlv m ! i))
               \<and> m' = m)"
proof -
  note trip = message_roundtrip [OF assms, of e]
  from trip have written: "fst (message_serialize e buf m) = int (message_serialized_size m)"
    by (rule conjunct1)
  from trip have parsed: "message_parse e crc malloc_ok
                            (take (message_serialized_size m) (snd (message_serialize e buf m)))
                          = Inr (MESSAGE_SUCCESS, m)"
    by (rule conjunct2)
  show ?thesis
  proof (intro conjI exI [of _ m])
    show "fst (message_serialize e buf m) = int (message_serialized_size m)"
      by (rule written)
    show "message_parse e crc malloc_ok
            (take (message_serialized_size m) (snd (message_serialize e buf m)))
          = Inr (MESSAGE_SUCCESS, m)"
      by (rule parsed)
  qed simp_all
qed

text \<open>
  C2 as stated fails: a raw add may store any bytes under the type \<^verbatim>\<open>TLV_CHECKSUM\<close>, and
  the parser rejects the serialized message when the first of them is not the first byte
  of the checksum of the records before.
\<close>

theorem message_roundtrip_counterexample:
  "add_all message_init [(TLV_CHECKSUM, 4, [1, 0, 0, 0])] = Inr (MESSAGE_SUCCESS, example_bad_checksum)
   \<and> message_serialized_size example_bad_checksum = 7
   \<and> message_serialize LittleEndian [0, 0, 0, 0, 0, 0, 0] example_bad_checksum
       = (7, [3, 0, 4, 1, 0, 0, 0])
   \<and> message_parse LittleEndian crc32 malloc_succeeds [3, 0, 4, 1, 0, 0, 0]
       = Inr (MESSAGE_ERROR_CHECKSUM_MISMATCH, message_init)"
  by code_simp

theorem message_roundtrip_checksummed_witness:
  "add_all message_init [(TLV_COMMAND, 1, [2]), (TLV_CHECKSUM, 4, [0x3C, 0x0C, 0x8E, 0xA1])]
     = Inr (MESSAGE_SUCCESS, example_scenario)
   \<and> checksums_ok crc32 [] (records example_scenario)
   \<and> message_serialized_size example_scenario \<le> length [0 :: uint8_t, 0, 0, 0, 0, 0, 0, 0, 0, 0, 0, 0]
   \<and> message_serialize BigEndian [0, 0, 0, 0, 0, 0, 0, 0, 0, 0, 0, 0] example_scenario
       = (11, [1, 0, 1, 2, 3, 0, 4, 0x3C, 0x0C, 0x8E, 0xA1, 0])
   \<and> message_parse BigEndian crc32 malloc_succeeds [1, 0, 1, 2, 3, 0, 4, 0x3C, 0x0C, 0x8E, 0xA1]
       = Inr (MESSAGE_SUCCESS, example_scenario)"
proof -
  have 1: "add_all message_init [(TLV_COMMAND, 1, [2]), (TLV_CHECKSUM, 4, [0x3C, 0x0C, 0x8E, 0xA1])]
           = Inr (MESSAGE_SUCCESS, example_scenario)"
    by code_simp
  have 2: "checksums_ok crc32 [] (records example_scenario)"
    by code_simp
  have 3: "\<forall>i<msg_length example_scenario. malloc_succeeds i"
    by (simp add: malloc_succeeds_def)
  have 4: "message_serialized_size example_scenario
           \<le> length [0 :: uint8_t, 0, 0, 0, 0, 0, 0, 0, 0, 0, 0, 0]"
    by code_simp
  have 5: "message_serialize BigEndian [0, 0, 0, 0, 0, 0, 0, 0, 0, 0, 0, 0] example_scenario
           = (11, [1, 0, 1, 2, 3, 0, 4, 0x3C, 0x0C, 0x8E, 0xA1, 0])"
    by code_simp
  have 6: "message_serialized_size example_scenario = 11"
    by code_simp
  from message_roundtrip_checksummed [OF 1 2 3 4, of BigEndian]
  have "message_parse BigEndian crc32 malloc_succeeds
          (take (message_serialized_size example_scenario)
             (snd (message_serialize BigEndian [0, 0, 0, 0, 0, 0, 0, 0, 0, 0, 0, 0] example_scenario)))
        = Inr (MESSAGE_SUCCESS, example_scenario)"
    by auto
  then show ?thesis
    using 1 2 4 by (simp add: 5 6)
qed

section \<open>What message_parse returns\<close>

lemma message_init_valid: "message_valid message_init"
  by (simp add: message_valid_def message_init_def records_def)

lemma message_parse_body_Break:
  assumes "length (msg_tlv m) = MAX_TLV_COUNT"
    "message_parse_body e crc malloc_ok data m offset = Break x"
  shows "x = Inl InvalidRead \<or> (\<exists>r. x = Inr (r, message_init) \<and> r \<noteq> MESSAGE_SUCCESS)"
proof (cases "msg_length m < MAX_TLV_COUNT")
  case True
  show ?thesis
    using assms(2) unfolding message_parse_body_eq [OF True assms(1)] Let_def
    by (auto split: if_splits)
next
  case False
  then show ?thesis
    using assms(2) by (auto simp: message_parse_body_def message_free_def)
qed

lemma message_parse_body_Continue:
  assumes "message_valid m"
    "message_parse_body e crc malloc_ok data m offset = Continue (m', offset')"
  shows "message_valid m' \<and> msg_length m' = msg_length m + 1
         \<and> offset < offset' \<and> offset' \<le> length data"
proof -
  have slots: "length (msg_tlv m) = MAX_TLV_COUNT" and valid: "list_all tlv_valid (records m)"
    using assms(1) by (simp_all add: message_valid_def)
  have room: "msg_length m < MAX_TLV_COUNT"
    using assms(2) by (auto simp: message_parse_body_def split: if_splits)
  define len where "len = be16_decode (data ! (offset + 1)) (data ! (offset + 2))"
  define t where "t = \<lparr>tlv_type = data ! offset, tlv_length = len,
                       tlv_value = Some (take (unat len) (drop (offset + 3) data))\<rparr>"
  have res: "m' = m\<lparr>msg_tlv := (msg_tlv m)[msg_length m := t], msg_length := msg_length m + 1\<rparr>"
    "offset' = offset + 3 + unat len" "\<not> length data < offset + 3 + unat len"
    using assms(2) unfolding message_parse_body_eq [OF room slots] Let_def len_def t_def
    by (auto split: if_splits)
  have "tlv_valid t"
    using res(3) by (simp add: t_def tlv_valid_def)
  moreover have "records m' = records m @ [t]"
    unfolding res(1) by (rule records_append) (use room slots in simp)
  ultimately have "list_all tlv_valid (records m')"
    using valid by simp
  then show ?thesis
    using room slots res by (simp add: message_valid_def)
qed

text \<open>
  Whatever the input, \<^verbatim>\<open>message_parse\<close> hands back a well-formed message, so with at most
  \<^verbatim>\<open>MAX_TLV_COUNT\<close> records, and the empty message whenever it reports an error.
\<close>

lemma message_parse_loop_valid:
  assumes "message_valid m"
    "message_parse_loop e crc malloc_ok data m offset = Inr (r, m')"
  shows "message_valid m' \<and> (r \<noteq> MESSAGE_SUCCESS \<longrightarrow> m' = message_init)"
  using assms
proof (induction e crc malloc_ok data m offset rule: message_parse_loop.induct)
  case (1 e crc malloc_ok data message offset)
  show ?case
  proof (cases "offset < length data")
    case True
    show ?thesis
    proof (cases "message_parse_body e crc malloc_ok data message offset")
      case (Break x)
      have slots: "length (msg_tlv message) = MAX_TLV_COUNT"
        using "1.prems"(1) by (simp add: message_valid_def)
      have "x = Inr (r, m')"
        using "1.prems"(2) True Break by (subst (asm) message_parse_loop.simps) simp
      with message_parse_body_Break [OF slots Break] show ?thesis
        by (auto simp: message_init_valid)
    next
      case (Continue p)
      obtain message' offset' where p: "p = (message', offset')"
        by (cases p) auto
      have next_valid: "message_valid message'"
        using message_parse_body_Continue [OF "1.prems"(1) Continue [unfolded p]] by simp
      have "message_parse_loop e crc malloc_ok data message' offset' = Inr (r, m')"
        using "1.prems"(2) True Continue p by (subst (asm) message_parse_loop.simps) simp
      with "1.IH" [OF True Continue [unfolded p] refl next_valid] show ?thesis
        by simp
    qed
  next
    case False
    then have "r = MESSAGE_SUCCESS" "m' = message"
      using "1.prems"(2) by (subst (asm) message_parse_loop.simps, simp)+
    then show ?thesis
      using "1.prems"(1) by simp
  qed
qed

text \<open>
  Bytes behind the records that have been parsed do not change how these were parsed.
\<close>

lemma message_parse_body_prefix:
  assumes "message_valid m"
    "message_parse_body e crc malloc_ok pre m offset = Continue (m', offset')"
  shows "message_parse_body e crc malloc_ok (pre @ tail) m offset = Continue (m', offset')"
proof -
  have slots: "length (msg_tlv m) = MAX_TLV_COUNT"
    using assms(1) by (simp add: message_valid_def)
  have room: "msg_length m < MAX_TLV_COUNT"
    using assms(2) by (auto simp: message_parse_body_def split: if_splits)
  define len where "len = be16_decode (pre ! (offset + 1)) (pre ! (offset + 2))"
  have header: "\<not> length pre < offset + 3"
    using assms(2) unfolding message_parse_body_eq [OF room slots]
    by (auto split: if_splits)
  have whole: "\<not> length pre < offset + 3 + unat len"
    using assms(2) header unfolding message_parse_body_eq [OF room slots] Let_def len_def
    by (auto split: if_splits)
  have reads: "(pre @ tail) ! offset = pre ! offset"
    "(pre @ tail) ! (offset + 1) = pre ! (offset + 1)"
    "(pre @ tail) ! (offset + 2) = pre ! (offset + 2)"
    using header by (simp_all add: nth_append)
  have val: "take (unat len) (drop (offset + 3) (pre @ tail))
             = take (unat len) (drop (offset + 3) pre)"
    using whole by simp
  have longer: "\<not> length (pre @ tail) < offset + 3"
    "\<not> length (pre @ tail) < offset + 3 + unat len"
    using header whole by simp_all
  show ?thesis
    using assms(2) header whole longer
    unfolding message_parse_body_eq [OF room slots] Let_def reads len_def [symmetric] val
    by (simp split: if_splits)
qed

lemma message_parse_loop_prefix:
  assumes "message_valid m" "offset \<le> length pre"
    "message_parse_loop e crc malloc_ok pre m offset = Inr (MESSAGE_SUCCESS, mf)"
  shows "message_parse_loop e crc malloc_ok (pre @ tail) m offset
         = message_parse_loop e crc malloc_ok (pre @ tail) mf (length pre)"
  using assms
proof (induction e crc malloc_ok pre m offset rule: message_parse_loop.induct)
  case (1 e crc malloc_ok data message offset)
  show ?case
  proof (cases "offset < length data")
    case True
    show ?thesis
    proof (cases "message_parse_body e crc malloc_ok data message offset")
      case (Break x)
      have slots: "length (msg_tlv message) = MAX_TLV_COUNT"
        using "1.prems"(1) by (simp add: message_valid_def)
      have "x = Inr (MESSAGE_SUCCESS, mf)"
        using "1.prems"(3) True Break by (subst (asm) message_parse_loop.simps) simp
      with message_parse_body_Break [OF slots Break] show ?thesis
        by auto
    next
      case (Continue p)
      obtain message' offset' where p: "p = (message', offset')"
        by (cases p) auto
      note step = Continue [unfolded p]
      have nxt: "message_valid message'" "offset' \<le> length data"
        using message_parse_body_Continue [OF "1.prems"(1) step] by simp_all
      have rest: "message_parse_loop e crc malloc_ok data message' offset'
                  = Inr (MESSAGE_SUCCESS, mf)"
        using "1.prems"(3) True step by (subst (asm) message_parse_loop.simps) simp
      have "message_parse_loop e crc malloc_ok (data @ tail) message offset
            = message_parse_loop e crc malloc_ok (data @ tail) message' offset'"
        using True message_parse_body_prefix [OF "1.prems"(1) step, of tail]
        by (subst message_parse_loop.simps) simp
      also have "\<dots> = message_parse_loop e crc malloc_ok (data @ tail) mf (length data)"
        by (rule "1.IH" [OF True step refl nxt rest])
      finally show ?thesis .
    qed
  next
    case False
    then have "mf = message"
      using "1.prems"(3) by (subst (asm) message_parse_loop.simps) simp
    moreover have "offset = length data"
      using False "1.prems"(2) by simp
    ultimately show ?thesis
      by simp
  qed
qed

section \<open>Truncated input and input beyond the capacity\<close>

lemma message_parse_Nil: "message_parse e crc malloc_ok [] = Inr (MESSAGE_SUCCESS, message_init)"
  by (simp add: message_parse_def message_parse_loop.simps)

lemma message_parse_valid:
  "message_parse e crc malloc_ok data = Inr (r, m) \<Longrightarrow> message_valid m"
  using message_parse_loop_valid [OF message_init_valid] by (simp add: message_parse_def)

text \<open>
  After a prefix that parses, the parser goes on at the first byte behind it, from the
  message that the prefix gave.
\<close>

lemma message_parse_append:
  assumes "message_parse e crc malloc_ok pre = Inr (MESSAGE_SUCCESS, m)" "tail \<noteq> []"
  shows "message_parse e crc malloc_ok (pre @ tail)
         = (case message_parse_body e crc malloc_ok (pre @ tail) m (length pre) of
              Break r \<Rightarrow> r
            | Continue (m', offset') \<Rightarrow>
                message_parse_loop e crc malloc_ok (pre @ tail) m' offset')"
proof -
  have "message_parse e crc malloc_ok (pre @ tail)
        = message_parse_loop e crc malloc_ok (pre @ tail) m (length pre)"
    unfolding message_parse_def
    by (rule message_parse_loop_prefix [OF message_init_valid])
       (use assms(1) in \<open>simp_all add: message_parse_def\<close>)
  also have "\<dots> = (case message_parse_body e crc malloc_ok (pre @ tail) m (length pre) of
              Break r \<Rightarrow> r
            | Continue (m', offset') \<Rightarrow>
                message_parse_loop e crc malloc_ok (pre @ tail) m' offset')"
    using assms(2) by (subst message_parse_loop.simps) simp
  finally show ?thesis .
qed

lemma message_parse_too_many:
  assumes "message_parse e crc malloc_ok pre = Inr (MESSAGE_SUCCESS, m)"
    "msg_length m = MAX_TLV_COUNT" "tail \<noteq> []"
  shows "message_parse e crc malloc_ok (pre @ tail)
         = Inr (MESSAGE_ERROR_TOO_MANY_TLVS, message_init)"
  unfolding message_parse_append [OF assms(1,3)]
  using assms(2) by (simp add: message_parse_body_def message_free_def)

lemma message_parse_cut_off:
  assumes "message_parse e crc malloc_ok pre = Inr (MESSAGE_SUCCESS, m)"
    "msg_length m < MAX_TLV_COUNT" "tail \<noteq> []"
    "length tail < 3 \<or> length tail < 3 + unat (be16_decode (tail ! 1) (tail ! 2))"
  shows "message_parse e crc malloc_ok (pre @ tail)
         = Inr (MESSAGE_ERROR_PARSE_ERROR, message_init)"
proof -
  have slots: "length (msg_tlv m) = MAX_TLV_COUNT"
    using message_parse_valid [OF assms(1)] by (simp add: message_valid_def)
  have reads: "(pre @ tail) ! (length pre + 1) = tail ! 1"
    "(pre @ tail) ! (length pre + 2) = tail ! 2"
    by (simp_all add: nth_append)
  show ?thesis
    unfolding message_parse_append [OF assms(1,3)] message_parse_body_eq [OF assms(2) slots]
      Let_def reads
    using assms(4) by auto
qed

text \<open>
  C7, as the source has it: parsing the empty buffer succeeds with no records. When a
  buffer is made of records that parse, fewer than 25 of them, followed by a record that
  is cut off, in its header (one or two bytes are left) or in its value (fewer bytes are
  left behind the header than it declares), parsing fails with \<^verbatim>\<open>MESSAGE_ERROR_PARSE_ERROR\<close>
  and hands back the empty message.
\<close>

theorem message_parse_truncated:
  "message_parse e crc malloc_ok [] = Inr (MESSAGE_SUCCESS, message_init)
   \<and> msg_length message_init = 0
   \<and> (message_parse e crc malloc_ok pre = Inr (MESSAGE_SUCCESS, m)
        \<and> msg_length m < MAX_TLV_COUNT \<and> tail \<noteq> []
        \<and> (length tail < 3 \<or> length tail < 3 + unat (be16_decode (tail ! 1) (tail ! 2)))
      \<longrightarrow> message_parse e crc malloc_ok (pre @ tail)
            = Inr (MESSAGE_ERROR_PARSE_ERROR, message_init))"
  using message_parse_cut_off [of e crc malloc_ok pre m tail]
  by (simp add: message_parse_Nil message_init_def)

theorem message_parse_truncated_witness:
  "message_parse BigEndian crc32 malloc_succeeds [1, 0, 1, 2]
     = Inr (MESSAGE_SUCCESS, message_of [example_command])
   \<and> msg_length (message_of [example_command]) < MAX_TLV_COUNT
   \<and> [5 :: uint8_t, 0, 2, 0x12] \<noteq> []
   \<and> length [5 :: uint8_t, 0, 2, 0x12]
       < 3 + unat (be16_decode ([5, 0, 2, 0x12] ! 1) ([5, 0, 2, 0x12] ! 2))
   \<and> message_parse BigEndian crc32 malloc_succeeds ([1, 0, 1, 2] @ [5, 0, 2, 0x12])
       = Inr (MESSAGE_ERROR_PARSE_ERROR, message_init)"
proof -
  have 1: "message_parse BigEndian crc32 malloc_succeeds [1, 0, 1, 2]
           = Inr (MESSAGE_SUCCESS, message_of [example_command])"
    by code_simp
  have 2: "msg_length (message_of [example_command]) < MAX_TLV_COUNT"
    by code_simp
  have 3: "length [5 :: uint8_t, 0, 2, 0x12]
           < 3 + unat (be16_decode ([5, 0, 2, 0x12] ! 1) ([5, 0, 2, 0x12] ! 2))"
    by code_simp
  show ?thesis
    using message_parse_truncated [of BigEndian crc32 malloc_succeeds "[1, 0, 1, 2]"
        "message_of [example_command]" "[5, 0, 2, 0x12]"] 1 2 3
    by simp
qed

section \<open>The full example message\<close>

lemma checksums_ok_other_types:
  "list_all (\<lambda>t. tlv_type t \<noteq> TLV_CHECKSUM) ts \<Longrightarrow> checksums_ok crc prev ts"
  by (induction ts arbitrary: prev) (simp_all add: checksum_record_ok_def)

lemma example_full_records:
  "records example_full
   = replicate 25 \<lparr>tlv_type = TLV_COMMAND, tlv_length = 1, tlv_value = Some [2]\<rparr>"
  by (simp add: example_full_def message_of_fields MAX_TLV_COUNT_def)

lemma example_full_wire:
  "wire_format (records example_full) = concat (replicate 25 [1, 0, 1, 2])"
  by (simp add: example_full_records wire_format_def wire_record_def be16_def tlv_bytes_def
      buffer_def TLV_COMMAND_def)

lemma example_full_valid: "message_valid example_full"
  unfolding example_full_def
  by (rule message_of_valid) (simp_all add: MAX_TLV_COUNT_def list_all_length tlv_valid_def)

lemma example_full_checksums: "checksums_ok crc [] (records example_full)"
  by (rule checksums_ok_other_types)
     (simp add: example_full_records list_all_length TLV_COMMAND_def TLV_CHECKSUM_def)

lemma example_full_size: "message_serialized_size example_full = 100"
  using message_serialized_size_wire [of example_full] example_full_valid
  by (simp add: message_valid_def example_full_records wire_size_def sum_list_replicate)

lemma example_full_count: "msg_length example_full = MAX_TLV_COUNT"
  by (simp add: example_full_def message_of_fields MAX_TLV_COUNT_def)

lemma example_full_parse:
  "message_parse e crc malloc_succeeds (concat (replicate 25 [1, 0, 1, 2]))
   = Inr (MESSAGE_SUCCESS, example_full)"
proof -
  let ?ts = "replicate 25 \<lparr>tlv_type = TLV_COMMAND, tlv_length = 1, tlv_value = Some [2]\<rparr>"
  have 1: "list_all tlv_valid ?ts"
    by (simp add: list_all_length tlv_valid_def)
  have 2: "length ([] :: tlv_t list) + length ?ts \<le> MAX_TLV_COUNT"
    by (simp add: MAX_TLV_COUNT_def)
  have 3: "\<forall>k<length ?ts. malloc_succeeds (length ([] :: tlv_t list) + k)"
    by (simp add: malloc_succeeds_def)
  have 4: "checksums_ok crc [] ?ts"
    using example_full_checksums [of crc] by (simp add: example_full_records)
  have "message_parse_loop e crc malloc_succeeds ([] @ wire_format ?ts) (message_of [])
          (length ([] :: uint8_t list))
        = Inr (MESSAGE_SUCCESS, message_of ([] @ ?ts))"
    by (rule message_parse_loop_wire [OF 1 2 3 4])
  moreover have "wire_format ?ts = concat (replicate 25 [1, 0, 1, 2])"
    using example_full_wire unfolding example_full_records .
  ultimately show ?thesis
    by (simp add: message_parse_def message_of_Nil example_full_def)
qed

text \<open>
  C7 as stated fails at the capacity: behind 25 records the parser reports
  \<^verbatim>\<open>MESSAGE_ERROR_TOO_MANY_TLVS\<close> before it looks at the cut-off record.
\<close>

theorem message_parse_truncated_counterexample:
  "message_parse LittleEndian crc32 malloc_succeeds (concat (replicate 25 [1, 0, 1, 2]))
     = Inr (MESSAGE_SUCCESS, example_full)
   \<and> message_parse LittleEndian crc32 malloc_succeeds (concat (replicate 25 [1, 0, 1, 2]) @ [1])
     = Inr (MESSAGE_ERROR_TOO_MANY_TLVS, message_init)"
  using example_full_parse [of LittleEndian crc32]
    message_parse_too_many [OF example_full_parse example_full_count, of "[1]" LittleEndian crc32]
  by simp

section \<open>The record count\<close>

text \<open>
  A successful parse accounts for every byte of its input: each pass appends the record
  whose wire format is the bytes it consumed, so the wire format of the result is the
  input.
\<close>

lemma take3_drop:
  assumes "offset + 3 + n \<le> length data"
  shows "data ! offset # data ! (offset + 1) # data ! (offset + 2) # take n (drop (offset + 3) data)
         = take (3 + n) (drop offset data)"
proof -
  have "drop offset data = data ! offset # drop (Suc offset) data"
    using assms by (simp add: Cons_nth_drop_Suc)
  also have "drop (Suc offset) data = data ! (offset + 1) # drop (Suc (Suc offset)) data"
    using assms by (simp add: Cons_nth_drop_Suc)
  also have "drop (Suc (Suc offset)) data = data ! (offset + 2) # drop (offset + 3) data"
    using assms Cons_nth_drop_Suc [of "offset + 2" data, symmetric]
    by (simp add: numeral_3_eq_3)
  finally show ?thesis
    by (simp add: numeral_3_eq_3)
qed

lemma message_parse_body_consumes:
  assumes "message_valid m"
    "message_parse_body e crc malloc_ok data m offset = Continue (m', offset')"
  shows "wire_format (records m')
         = wire_format (records m) @ take (offset' - offset) (drop offset data)"
proof -
  have slots: "length (msg_tlv m) = MAX_TLV_COUNT"
    using assms(1) by (simp add: message_valid_def)
  have room: "msg_length m < MAX_TLV_COUNT"
    using assms(2) by (auto simp: message_parse_body_def split: if_splits)
  define len where "len = be16_decode (data ! (offset + 1)) (data ! (offset + 2))"
  define v where "v = take (unat len) (drop (offset + 3) data)"
  define t where "t = \<lparr>tlv_type = data ! offset, tlv_length = len, tlv_value = Some v\<rparr>"
  have res: "m' = m\<lparr>msg_tlv := (msg_tlv m)[msg_length m := t], msg_length := msg_length m + 1\<rparr>"
    "offset' = offset + 3 + unat len" "\<not> length data < offset + 3 + unat len"
    using assms(2) unfolding message_parse_body_eq [OF room slots] Let_def len_def t_def v_def
    by (auto split: if_splits)
  have lv: "length v = unat len"
    using res(3) by (simp add: v_def)
  have "wire_record t = data ! offset # data ! (offset + 1) # data ! (offset + 2) # v"
    using be16_of_decode [of "data ! (offset + 1)" "data ! (offset + 2)"]
    by (simp add: wire_record_def t_def tlv_bytes_def buffer_def lv len_def)
  also have "\<dots> = take (3 + unat len) (drop offset data)"
    unfolding v_def by (rule take3_drop) (use res(3) in simp)
  finally have rec: "wire_record t = take (offset' - offset) (drop offset data)"
    by (simp add: res(2))
  have "records m' = records m @ [t]"
    unfolding res(1) by (rule records_append) (use room slots in simp)
  then show ?thesis
    by (simp add: wire_format_def rec)
qed

lemma message_parse_loop_complete:
  assumes "message_valid m" "offset \<le> length data"
    "wire_format (records m) = take offset data"
    "message_parse_loop e crc malloc_ok data m offset = Inr (MESSAGE_SUCCESS, mf)"
  shows "wire_format (records mf) = data"
  using assms
proof (induction e crc malloc_ok data m offset rule: message_parse_loop.induct)
  case (1 e crc malloc_ok data message offset)
  show ?case
  proof (cases "offset < length data")
    case True
    show ?thesis
    proof (cases "message_parse_body e crc malloc_ok data message offset")
      case (Break x)
      have slots: "length (msg_tlv message) = MAX_TLV_COUNT"
        using "1.prems"(1) by (simp add: message_valid_def)
      have "x = Inr (MESSAGE_SUCCESS, mf)"
        using "1.prems"(4) True Break by (subst (asm) message_parse_loop.simps) simp
      with message_parse_body_Break [OF slots Break] show ?thesis
        by auto
    next
      case (Continue p)
      obtain message' offset' where p: "p = (message', offset')"
        by (cases p) auto
      note step = Continue [unfolded p]
      have nxt: "message_valid message'" "offset' \<le> length data" "offset < offset'"
        using message_parse_body_Continue [OF "1.prems"(1) step] by simp_all
      have rest: "message_parse_loop e crc malloc_ok data message' offset'
                  = Inr (MESSAGE_SUCCESS, mf)"
        using "1.prems"(4) True step by (subst (asm) message_parse_loop.simps) simp
      have "wire_format (records message')
            = take offset data @ take (offset' - offset) (drop offset data)"
        using message_parse_body_consumes [OF "1.prems"(1) step] "1.prems"(3) by simp
      also have "\<dots> = take offset' data"
        using nxt(3) take_add [of offset "offset' - offset" data] by simp
      finally have inv: "wire_format (records message') = take offset' data" .
      show ?thesis
        by (rule "1.IH" [OF True step refl nxt(1,2) inv rest])
    qed
  next
    case False
    then have "mf = message"
      using "1.prems"(4) by (subst (asm) message_parse_loop.simps) simp
    then show ?thesis
      using False "1.prems"(2,3) by simp
  qed
qed

lemma message_parse_complete:
  assumes "message_parse e crc malloc_ok data = Inr (MESSAGE_SUCCESS, m)"
  shows "wire_format (records m) = data"
proof (rule message_parse_loop_complete [OF message_init_valid])
  show "message_parse_loop e crc malloc_ok data message_init 0 = Inr (MESSAGE_SUCCESS, m)"
    using assms by (simp add: message_parse_def)
  show "wire_format (records message_init) = take 0 data"
    by (simp add: wire_format_def records_def message_init_def)
qed simp

lemma message_tlv_add_valid:
  assumes "message_valid m" "message_tlv_add malloc_ok m ty len val = Inr (r, m')"
  shows "message_valid m' \<and> msg_length m \<le> msg_length m'"
proof (cases "msg_length m < MAX_TLV_COUNT \<and> malloc_ok")
  case True
  have slots: "length (msg_tlv m) = MAX_TLV_COUNT" and valid: "list_all tlv_valid (records m)"
    using assms(1) by (simp_all add: message_valid_def)
  have fits: "unat len \<le> length val"
    using assms(2) True by (auto simp: message_tlv_add_def Let_def split: if_splits)
  define t where "t = \<lparr>tlv_type = ty, tlv_length = len, tlv_value = Some (take (unat len) val)\<rparr>"
  have m': "m' = m\<lparr>msg_tlv := (msg_tlv m)[msg_length m := t], msg_length := msg_length m + 1\<rparr>"
    using message_tlv_add_success [of m len val ty] True slots fits assms(2)
    by (simp add: t_def)
  have "records m' = records m @ [t]"
    unfolding m' by (rule records_append) (use True slots in simp)
  moreover have "tlv_valid t"
    using fits by (simp add: t_def tlv_valid_def)
  ultimately have "list_all tlv_valid (records m')"
    using valid by simp
  then show ?thesis
    using True slots by (simp add: message_valid_def m')
next
  case False
  then have "msg_length m' = msg_length m" "length (msg_tlv m') = length (msg_tlv m)"
    "records m' = records m"
    using assms(2)
    by (auto simp: message_tlv_add_def Let_def set_tlv_value_def records_def split: if_splits)
  then show ?thesis
    using assms(1) by (simp add: message_valid_def)
qed

text \<open>
  C3: the record count stays within 0 and \<^verbatim>\<open>MAX_TLV_COUNT\<close> = 25. \<^verbatim>\<open>message_init\<close> gives a
  well-formed message without records; \<^verbatim>\<open>message_tlv_add\<close>, whatever it returns, takes a
  well-formed message to a well-formed one and never lowers the count; whatever
  \<^verbatim>\<open>message_parse\<close> returns is well formed, is the empty message when the parse failed,
  and holds every record of the input when it succeeded (its wire format is the input);
  \<^verbatim>\<open>message_tlv_get\<close> and \<^verbatim>\<open>message_serialize\<close> read the message and cannot change it. On a message of 25 records
  \<^verbatim>\<open>message_tlv_add\<close> returns \<^verbatim>\<open>MESSAGE_ERROR_TOO_MANY_TLVS\<close> and leaves the message as it
  is. When input is left behind 25 parsed records, \<^verbatim>\<open>message_parse\<close> returns
  \<^verbatim>\<open>MESSAGE_ERROR_TOO_MANY_TLVS\<close>, with the empty message and not a shortened one. A
  message of exactly 25 records, built by adds and with consistent checksum records,
  serializes in full and parses back to itself when the parser's allocations succeed.
\<close>

theorem record_count_bounded:
  "message_valid message_init \<and> msg_length message_init = 0
   \<and> (message_valid m \<longrightarrow> msg_length m \<le> MAX_TLV_COUNT)
   \<and> (message_valid m \<and> message_tlv_add ok m ty len val = Inr (r, m')
        \<longrightarrow> message_valid m' \<and> msg_length m \<le> msg_length m')
   \<and> (message_parse e crc malloc_ok data = Inr (r', m'')
        \<longrightarrow> message_valid m''
            \<and> (r' = MESSAGE_SUCCESS \<longrightarrow> wire_format (records m'') = data)
            \<and> (r' \<noteq> MESSAGE_SUCCESS \<longrightarrow> m'' = message_init))
   \<and> (msg_length m = MAX_TLV_COUNT
        \<longrightarrow> message_tlv_add ok m ty len val = Inr (MESSAGE_ERROR_TOO_MANY_TLVS, m))
   \<and> (message_parse e crc malloc_ok pre = Inr (MESSAGE_SUCCESS, mp)
        \<and> msg_length mp = MAX_TLV_COUNT \<and> tail \<noteq> []
        \<longrightarrow> message_parse e crc malloc_ok (pre @ tail)
              = Inr (MESSAGE_ERROR_TOO_MANY_TLVS, message_init))
   \<and> (add_all message_init ops = Inr (MESSAGE_SUCCESS, mf) \<and> msg_length mf = MAX_TLV_COUNT
        \<and> checksums_ok crc [] (records mf) \<and> (\<forall>i<MAX_TLV_COUNT. malloc_ok i)
        \<and> message_serialized_size mf \<le> length buf
        \<longrightarrow> fst (message_serialize e buf mf) = int (message_serialized_size mf)
            \<and> message_parse e crc malloc_ok
                 (take (message_serialized_size mf) (snd (message_serialize e buf mf)))
               = Inr (MESSAGE_SUCCESS, mf))"
proof -
  have 1: "message_valid message_init \<and> msg_length message_init = 0"
    by (simp add: message_init_valid) (simp add: message_init_def)
  have 2: "message_valid m \<longrightarrow> msg_length m \<le> MAX_TLV_COUNT"
    by (simp add: message_valid_def)
  have 3: "message_valid m \<and> message_tlv_add ok m ty len val = Inr (r, m')
           \<longrightarrow> message_valid m' \<and> msg_length m \<le> msg_length m'"
    using message_tlv_add_valid by blast
  have 4: "message_parse e crc malloc_ok data = Inr (r', m'')
           \<longrightarrow> message_valid m''
               \<and> (r' = MESSAGE_SUCCESS \<longrightarrow> wire_format (records m'') = data)
               \<and> (r' \<noteq> MESSAGE_SUCCESS \<longrightarrow> m'' = message_init)"
    using message_parse_loop_valid [OF message_init_valid, of e crc malloc_ok data 0 r' m'']
      message_parse_complete [of e crc malloc_ok data m'']
    by (auto simp: message_parse_def)
  have 5: "msg_length m = MAX_TLV_COUNT
           \<longrightarrow> message_tlv_add ok m ty len val = Inr (MESSAGE_ERROR_TOO_MANY_TLVS, m)"
    by (simp add: message_tlv_add_def)
  have 6: "message_parse e crc malloc_ok pre = Inr (MESSAGE_SUCCESS, mp)
        \<and> msg_length mp = MAX_TLV_COUNT \<and> tail \<noteq> []
        \<longrightarrow> message_parse e crc malloc_ok (pre @ tail)
              = Inr (MESSAGE_ERROR_TOO_MANY_TLVS, message_init)"
    using message_parse_too_many by blast
  have 7: "add_all message_init ops = Inr (MESSAGE_SUCCESS, mf) \<and> msg_length mf = MAX_TLV_COUNT
        \<and> checksums_ok crc [] (records mf) \<and> (\<forall>i<MAX_TLV_COUNT. malloc_ok i)
        \<and> message_serialized_size mf \<le> length buf
        \<longrightarrow> fst (message_serialize e buf mf) = int (message_serialized_size mf)
            \<and> message_parse e crc malloc_ok
                 (take (message_serialized_size mf) (snd (message_serialize e buf mf)))
               = Inr (MESSAGE_SUCCESS, mf)"
    using message_roundtrip [of ops mf crc malloc_ok buf e] by simp
  show ?thesis
    using 1 2 3 4 5 6 7 by blast
qed

theorem record_count_bounded_witness:
  "message_valid example_full \<and> msg_length example_full = MAX_TLV_COUNT
   \<and> message_tlv_add True example_full TLV_REPLY 1 [1]
       = Inr (MESSAGE_ERROR_TOO_MANY_TLVS, example_full)
   \<and> message_parse BigEndian crc32 malloc_succeeds (concat (replicate 25 [1, 0, 1, 2]))
       = Inr (MESSAGE_SUCCESS, example_full)
   \<and> message_parse BigEndian crc32 malloc_succeeds (concat (replicate 25 [1, 0, 1, 2]) @ [2, 0, 1, 1])
       = Inr (MESSAGE_ERROR_TOO_MANY_TLVS, message_init)
   \<and> add_all message_init (replicate 25 (TLV_COMMAND, 1, [2])) = Inr (MESSAGE_SUCCESS, example_full)
   \<and> checksums_ok crc32 [] (records example_full)
   \<and> message_serialized_size example_full \<le> length (replicate 105 (0 :: uint8_t))
   \<and> wire_format (records example_full) = concat (replicate 25 [1, 0, 1, 2])
   \<and> message_parse BigEndian crc32 malloc_succeeds
        (take (message_serialized_size example_full)
           (snd (message_serialize BigEndian (replicate 105 0) example_full)))
       = Inr (MESSAGE_SUCCESS, example_full)"
proof -
  note v = example_full_valid
  note n = example_full_count
  note p = example_full_parse [of BigEndian crc32]
  have a: "add_all message_init (replicate 25 (TLV_COMMAND, 1, [2]))
           = Inr (MESSAGE_SUCCESS, example_full)"
    by code_simp
  note c = example_full_checksums [of crc32]
  have ok: "\<forall>i<MAX_TLV_COUNT. malloc_succeeds i"
    by (simp add: malloc_succeeds_def)
  have s: "message_serialized_size example_full \<le> length (replicate 105 (0 :: uint8_t))"
    by (simp add: example_full_size)
  have t: "[2 :: uint8_t, 0, 1, 1] \<noteq> []"
    by simp
  note inst = record_count_bounded [of example_full True TLV_REPLY 1 "[1]" MESSAGE_SUCCESS
      example_full BigEndian crc32 malloc_succeeds "concat (replicate 25 [1, 0, 1, 2])"
      MESSAGE_SUCCESS example_full "concat (replicate 25 [1, 0, 1, 2])" example_full
      "[2, 0, 1, 1]" "replicate 25 (TLV_COMMAND, 1, [2])" example_full "replicate 105 0"]
  have "message_tlv_add True example_full TLV_REPLY 1 [1]
        = Inr (MESSAGE_ERROR_TOO_MANY_TLVS, example_full)"
    using inst n by blast
  moreover have "message_parse BigEndian crc32 malloc_succeeds
                   (concat (replicate 25 [1, 0, 1, 2]) @ [2, 0, 1, 1])
                 = Inr (MESSAGE_ERROR_TOO_MANY_TLVS, message_init)"
    using inst p n t by blast
  moreover have "message_parse BigEndian crc32 malloc_succeeds
        (take (message_serialized_size example_full)
           (snd (message_serialize BigEndian (replicate 105 0) example_full)))
       = Inr (MESSAGE_SUCCESS, example_full)"
    using inst a n c ok s by blast
  ultimately show ?thesis
    using v n p a c s example_full_wire by blast
qed

section \<open>The assertion of message_tlv_get\<close>

text \<open>
  C10: in a message that \<^verbatim>\<open>message_parse\<close> returned, let record \<open>k\<close> be the first of the
  requested type. \<^verbatim>\<open>message_tlv_get\<close> into a destination at least as long as the record
  overwrites the first \<^verbatim>\<open>tlv[k].length\<close> bytes of the destination with the record's value
  and leaves the rest; into a shorter destination it fails its assertion and returns
  nothing. So \<^verbatim>\<open>message_tlv_get_command\<close>, whose destination is one byte, fails the
  assertion when the first command record is longer than one byte. Such messages come out
  of the parser: any input that starts with a command record of more than one byte, for
  which the allocation succeeds and that is not followed by anything, parses successfully.
\<close>

theorem message_tlv_get_assertion:
  "(message_parse e crc malloc_ok data = Inr (MESSAGE_SUCCESS, m)
      \<and> k < msg_length m \<and> tlv_type (msg_tlv m ! k) = ty
      \<and> (\<forall>j<k. tlv_type (msg_tlv m ! j) \<noteq> ty)
    \<longrightarrow> length (tlv_bytes (msg_tlv m ! k)) = unat (tlv_length (msg_tlv m ! k))
        \<and> (unat (tlv_length (msg_tlv m ! k)) \<le> length d
              \<longrightarrow> message_tlv_get m ty d
                    = Inr (MESSAGE_SUCCESS,
                           tlv_bytes (msg_tlv m ! k) @ drop (unat (tlv_length (msg_tlv m ! k))) d))
        \<and> (length d < unat (tlv_length (msg_tlv m ! k))
              \<longrightarrow> message_tlv_get m ty d = Inl AssertionFailed)
        \<and> (ty = TLV_COMMAND \<and> 1 < unat (tlv_length (msg_tlv m ! k))
              \<longrightarrow> message_tlv_get_command m local command = Inl AssertionFailed))
   \<and> (1 < unat len \<and> length v = unat len \<and> malloc_ok 0
        \<longrightarrow> message_parse e crc malloc_ok ([TLV_COMMAND] @ be16 len @ v)
              = Inr (MESSAGE_SUCCESS,
                     message_of [\<lparr>tlv_type = TLV_COMMAND, tlv_length = len, tlv_value = Some v\<rparr>])
          \<and> message_tlv_get_command
                (message_of [\<lparr>tlv_type = TLV_COMMAND, tlv_length = len, tlv_value = Some v\<rparr>])
                local command
              = Inl AssertionFailed)"
proof -
  have get: "length (tlv_bytes (msg_tlv m ! k)) = unat (tlv_length (msg_tlv m ! k))
        \<and> (unat (tlv_length (msg_tlv m ! k)) \<le> length d
              \<longrightarrow> message_tlv_get m ty d
                    = Inr (MESSAGE_SUCCESS,
                           tlv_bytes (msg_tlv m ! k) @ drop (unat (tlv_length (msg_tlv m ! k))) d))
        \<and> (length d < unat (tlv_length (msg_tlv m ! k))
              \<longrightarrow> message_tlv_get m ty d = Inl AssertionFailed)
        \<and> (ty = TLV_COMMAND \<and> 1 < unat (tlv_length (msg_tlv m ! k))
              \<longrightarrow> message_tlv_get_command m local command = Inl AssertionFailed)"
    if valid: "message_valid m" and k: "k < msg_length m" "tlv_type (msg_tlv m ! k) = ty"
      "\<forall>j<k. tlv_type (msg_tlv m ! j) \<noteq> ty" for m k ty d local command
  proof -
    have len: "msg_length m \<le> length (msg_tlv m)"
      using valid by (simp add: message_valid_def)
    have l: "length (tlv_bytes (msg_tlv m ! k)) = unat (tlv_length (msg_tlv m ! k))"
      by (rule tlv_valid_bytes [OF records_valid [OF valid k(1)]])
    note hit = message_tlv_get_hit [OF len k]
    have "message_tlv_get_command m local command = Inl AssertionFailed"
      if "ty = TLV_COMMAND" "1 < unat (tlv_length (msg_tlv m ! k))"
      using hit [of "[local]"] that by (simp add: message_tlv_get_command_def)
    then show ?thesis
      using hit [of d] l by (auto simp: memcpy_def)
  qed
  have parse: "message_parse e crc malloc_ok ([TLV_COMMAND] @ be16 len @ v)
              = Inr (MESSAGE_SUCCESS,
                     message_of [\<lparr>tlv_type = TLV_COMMAND, tlv_length = len, tlv_value = Some v\<rparr>])
          \<and> message_tlv_get_command
                (message_of [\<lparr>tlv_type = TLV_COMMAND, tlv_length = len, tlv_value = Some v\<rparr>])
                local command
              = Inl AssertionFailed"
    if long: "1 < unat len" and v: "length v = unat len" and ok: "malloc_ok 0"
  proof -
    define t where "t = \<lparr>tlv_type = TLV_COMMAND, tlv_length = len, tlv_value = Some v\<rparr>"
    have tv: "tlv_valid t"
      using v by (simp add: t_def tlv_valid_def)
    have 1: "list_all tlv_valid [t]"
      using tv by simp
    have 2: "length ([] :: tlv_t list) + length [t] \<le> MAX_TLV_COUNT"
      by (simp add: MAX_TLV_COUNT_def)
    have 3: "\<forall>k<length [t]. malloc_ok (length ([] :: tlv_t list) + k)"
      using ok by simp
    have 4: "checksums_ok crc [] [t]"
      by (simp add: checksum_record_ok_def t_def TLV_COMMAND_def TLV_CHECKSUM_def)
    have w: "wire_format [t] = [TLV_COMMAND] @ be16 len @ v"
      using v by (simp add: wire_format_def wire_record_def t_def tlv_bytes_def buffer_def)
    have p: "message_parse e crc malloc_ok ([TLV_COMMAND] @ be16 len @ v)
             = Inr (MESSAGE_SUCCESS, message_of [t])"
      using message_parse_loop_wire [OF 1 2 3 4, of e "[]"]
      by (simp add: message_parse_def message_of_Nil w)
    have mv: "message_valid (message_of [t])"
      by (rule message_of_valid) (use 1 in \<open>simp_all add: MAX_TLV_COUNT_def\<close>)
    have nth: "msg_tlv (message_of [t]) ! 0 = t" "msg_length (message_of [t]) = 1"
      by (simp_all add: message_of_def)
    have "message_tlv_get_command (message_of [t]) local command = Inl AssertionFailed"
      using get [OF mv, of 0 TLV_COMMAND "[]" local command] long
      by (simp add: nth) (simp add: t_def)
    then show ?thesis
      using p by (simp add: t_def)
  qed
  show ?thesis
    using get [OF message_parse_valid, of e crc malloc_ok data MESSAGE_SUCCESS m k ty d local command]
      parse
    by blast
qed

theorem message_tlv_get_assertion_witness:
  "message_parse LittleEndian crc32 malloc_succeeds [1, 0, 2, 7, 7]
     = Inr (MESSAGE_SUCCESS, example_long_command)
   \<and> 0 < msg_length example_long_command
   \<and> tlv_type (msg_tlv example_long_command ! 0) = TLV_COMMAND
   \<and> 1 < unat (tlv_length (msg_tlv example_long_command ! 0))
   \<and> message_tlv_get example_long_command TLV_COMMAND [0xEE, 0xEE, 0xEE]
       = Inr (MESSAGE_SUCCESS, [7, 7, 0xEE])
   \<and> message_tlv_get example_long_command TLV_COMMAND [0xEE] = Inl AssertionFailed
   \<and> message_tlv_get_command example_long_command 0xEE 0 = Inl AssertionFailed"
proof -
  have p: "message_parse LittleEndian crc32 malloc_succeeds [1, 0, 2, 7, 7]
           = Inr (MESSAGE_SUCCESS, example_long_command)"
    by code_simp
  have k: "0 < msg_length example_long_command"
    "tlv_type (msg_tlv example_long_command ! 0) = TLV_COMMAND"
    "\<forall>j<0::nat. tlv_type (msg_tlv example_long_command ! j) \<noteq> TLV_COMMAND"
    by (simp_all add: example_long_command_def message_of_def)
  have l: "unat (tlv_length (msg_tlv example_long_command ! 0)) = 2"
    "tlv_bytes (msg_tlv example_long_command ! 0) = [7, 7]"
    by (simp_all add: example_long_command_def message_of_def tlv_bytes_def buffer_def)
  have "message_tlv_get example_long_command TLV_COMMAND [0xEE, 0xEE, 0xEE]
        = Inr (MESSAGE_SUCCESS, [7, 7, 0xEE])"
    using message_tlv_get_assertion [of LittleEndian crc32 malloc_succeeds "[1, 0, 2, 7, 7]"
        example_long_command 0 TLV_COMMAND "[0xEE, 0xEE, 0xEE]"] p k
    by (simp add: l)
  moreover have "message_tlv_get example_long_command TLV_COMMAND [0xEE] = Inl AssertionFailed"
    using message_tlv_get_assertion [of LittleEndian crc32 malloc_succeeds "[1, 0, 2, 7, 7]"
        example_long_command 0 TLV_COMMAND "[0xEE]"] p k
    by (simp add: l)
  moreover have "message_tlv_get_command example_long_command 0xEE 0 = Inl AssertionFailed"
    using message_tlv_get_assertion [of LittleEndian crc32 malloc_succeeds "[1, 0, 2, 7, 7]"
        example_long_command 0 TLV_COMMAND "[]" "0xEE" 0] p k
    by (simp add: l)
  ultimately show ?thesis
    using p k(1,2) l(1) by simp
qed

section \<open>The checksum comparison of message_parse\<close>

text \<open>The CRC32 of the two examples, one byte at a time.\<close>

lemma crc32_byte_a0: "crc32_byte 4294967295 133 = 2955896797"
  by code_simp

lemma crc32_byte_a1: "crc32_byte 2955896797 52 = 3647370683"
  by code_simp

lemma crc32_byte_b0: "crc32_byte 3647370683 0 = 1550453873"
  by code_simp

lemma crc32_byte_b1: "crc32_byte 1550453873 0 = 660482982"
  by code_simp

lemma crc32_byte_b2: "crc32_byte 660482982 0 = 1066555638"
  by code_simp

lemma crc32_byte_b3: "crc32_byte 1066555638 1 = 602338791"
  by code_simp

lemma crc32_example_mutated:
  "crc32 (crc32 0 [0x85, 0x34]) [0, 0, 0, 1] = 0xDC190A18"
proof -
  have n0: "NOT (0 :: uint32_t) = 4294967295" by code_simp
  have n1: "NOT (3647370683 :: uint32_t) = 647596612" by code_simp
  have n2: "NOT (647596612 :: uint32_t) = 3647370683" by code_simp
  have n3: "NOT (602338791 :: uint32_t) = 0xDC190A18" by code_simp
  have 1: "crc32 0 [0x85, 0x34] = 647596612"
    unfolding crc32_def foldl.simps n0 crc32_byte_a0 crc32_byte_a1 n1 ..
  show ?thesis
    unfolding 1 unfolding crc32_def foldl.simps n2 crc32_byte_b0 crc32_byte_b1 crc32_byte_b2 crc32_byte_b3 n3 ..
qed

lemma crc32_byte_c0: "crc32_byte 4294967295 18 = 3729023290"
  by code_simp

lemma crc32_byte_c1: "crc32_byte 3729023290 52 = 3882248550"
  by code_simp

lemma crc32_byte_d0: "crc32_byte 3882248550 0 = 2755043844"
  by code_simp

lemma crc32_byte_d1: "crc32_byte 2755043844 0 = 130675387"
  by code_simp

lemma crc32_byte_d2: "crc32_byte 130675387 0 = 1555342326"
  by code_simp

lemma crc32_byte_d3: "crc32_byte 1555342326 1 = 595972892"
  by code_simp

lemma crc32_example_original:
  "crc32 (crc32 0 [0x12, 0x34]) [0, 0, 0, 1] = 0xDC7A2CE3"
proof -
  have n0: "NOT (0 :: uint32_t) = 4294967295" by code_simp
  have n1: "NOT (3882248550 :: uint32_t) = 412718745" by code_simp
  have n2: "NOT (412718745 :: uint32_t) = 3882248550" by code_simp
  have n3: "NOT (595972892 :: uint32_t) = 0xDC7A2CE3" by code_simp
  have 1: "crc32 0 [0x12, 0x34] = 412718745"
    unfolding crc32_def foldl.simps n0 crc32_byte_c0 crc32_byte_c1 n1 ..
  show ?thesis
    unfolding 1 unfolding crc32_def foldl.simps n2 crc32_byte_d0 crc32_byte_d1 crc32_byte_d2 crc32_byte_d3 n3 ..
qed

text \<open>
  C1, as the source has it. The third argument of \<^verbatim>\<open>memcmp\<close> in \<^verbatim>\<open>message_parse\<close> is
  \<^verbatim>\<open>sizeof(uint32_t) != 0\<close>, which is 1, so the parser compares one byte: it accepts every
  input made of well-formed records, at most 25, in which each record of type
  \<^verbatim>\<open>TLV_CHECKSUM\<close> has a first value byte equal to the first byte of the checksum of the
  records before it, whatever its other bytes are.
\<close>

theorem message_parse_compares_one_byte:
  assumes "list_all tlv_valid ts" "length ts \<le> MAX_TLV_COUNT" "\<forall>k<length ts. malloc_ok k"
    "checksums_pass crc [] ts"
  shows "message_parse e crc malloc_ok (wire_format ts) = Inr (MESSAGE_SUCCESS, message_of ts)"
proof -
  have 2: "length ([] :: tlv_t list) + length ts \<le> MAX_TLV_COUNT"
    using assms(2) by simp
  have 3: "\<forall>k<length ts. malloc_ok (length ([] :: tlv_t list) + k)"
    using assms(3) by simp
  have "message_parse_loop e crc malloc_ok ([] @ wire_format ts) (message_of [])
          (length ([] :: uint8_t list))
        = Inr (MESSAGE_SUCCESS, message_of ([] @ ts))"
    by (rule message_parse_loop_accepts [OF assms(1) 2 3 assms(4)])
  then show ?thesis
    by (simp add: message_parse_def message_of_Nil)
qed

theorem message_parse_compares_one_byte_witness:
  "be32 (running_crc crc32 []) = [0, 0, 0, 0]
   \<and> message_parse LittleEndian crc32 malloc_succeeds [3, 0, 4, 0, 0, 0, 1]
       = Inr (MESSAGE_SUCCESS,
              message_of [\<lparr>tlv_type = TLV_CHECKSUM, tlv_length = 4,
                           tlv_value = Some [0, 0, 0, 1]\<rparr>])
   \<and> be32 (running_crc crc32 [example_reading, example_report]) = [0xDC, 0x7A, 0x2C, 0xE3]
   \<and> be32 (running_crc crc32 [example_reading_mutated, example_report]) = [0xDC, 0x19, 0x0A, 0x18]
   \<and> message_parse LittleEndian crc32 malloc_succeeds
        [5, 0, 2, 0x85, 0x34,  7, 0, 4, 0, 0, 0, 1,  3, 0, 4, 0xDC, 0x7A, 0x2C, 0xE3]
       = Inr (MESSAGE_SUCCESS,
              message_of [example_reading_mutated, example_report, example_checksum])"
proof -
  let ?c = "\<lparr>tlv_type = TLV_CHECKSUM, tlv_length = 4, tlv_value = Some [0, 0, 0, 1]\<rparr>"
  have ok: "\<forall>k<n. malloc_succeeds k" for n
    by (simp add: malloc_succeeds_def)
  have r0: "be32 (running_crc crc32 []) = [0, 0, 0, 0]"
    by (simp add: running_crc_def be32_def)
  have a1: "list_all tlv_valid [?c]" "length [?c] \<le> MAX_TLV_COUNT"
    by (simp_all add: tlv_valid_def MAX_TLV_COUNT_def)
  have a4: "checksums_pass crc32 [] [?c]"
    by (simp add: checksum_record_passes_def r0 tlv_bytes_def buffer_def)
  have w1: "wire_format [?c] = [3, 0, 4, 0, 0, 0, 1]"
    by (simp add: wire_format_def wire_record_def be16_def tlv_bytes_def buffer_def
        TLV_CHECKSUM_def)
  have p1: "message_parse LittleEndian crc32 malloc_succeeds [3, 0, 4, 0, 0, 0, 1]
            = Inr (MESSAGE_SUCCESS, message_of [?c])"
    using message_parse_compares_one_byte [OF a1 ok a4, of LittleEndian] by (simp add: w1)
  let ?ts = "[example_reading_mutated, example_report, example_checksum]"
  have bytes: "tlv_bytes example_reading_mutated = [0x85, 0x34]"
    "tlv_bytes example_report = [0, 0, 0, 1]"
    "tlv_bytes example_checksum = [0xDC, 0x7A, 0x2C, 0xE3]"
    "tlv_bytes example_reading = [0x12, 0x34]"
    by (simp_all add: example_reading_mutated_def example_report_def example_checksum_def
        example_reading_def tlv_bytes_def buffer_def)
  have types: "tlv_type example_reading_mutated \<noteq> TLV_CHECKSUM"
    "tlv_type example_report \<noteq> TLV_CHECKSUM"
    by (simp_all add: example_reading_mutated_def example_report_def TLV_CHECKSUM_def)
  have r2: "be32 (running_crc crc32 [example_reading_mutated, example_report])
            = [0xDC, 0x19, 0x0A, 0x18]"
    unfolding running_crc_def foldl.simps bytes crc32_example_mutated by code_simp
  have b1: "list_all tlv_valid ?ts" "length ?ts \<le> MAX_TLV_COUNT"
    by (simp_all add: tlv_valid_def MAX_TLV_COUNT_def example_reading_mutated_def
        example_report_def example_checksum_def)
  have b4: "checksums_pass crc32 [] ?ts"
    by (simp add: checksum_record_passes_def types r2 bytes)
  have w2: "wire_format ?ts
            = [5, 0, 2, 0x85, 0x34,  7, 0, 4, 0, 0, 0, 1,  3, 0, 4, 0xDC, 0x7A, 0x2C, 0xE3]"
    by (simp add: wire_format_def wire_record_def be16_def bytes)
       (simp add: example_reading_mutated_def example_report_def example_checksum_def
        TLV_CHECKSUM_def)
  have p2: "message_parse LittleEndian crc32 malloc_succeeds
              [5, 0, 2, 0x85, 0x34,  7, 0, 4, 0, 0, 0, 1,  3, 0, 4, 0xDC, 0x7A, 0x2C, 0xE3]
            = Inr (MESSAGE_SUCCESS, message_of ?ts)"
    using message_parse_compares_one_byte [OF b1 ok b4, of LittleEndian] by (simp add: w2)
  have r1: "be32 (running_crc crc32 [example_reading, example_report]) = [0xDC, 0x7A, 0x2C, 0xE3]"
    unfolding running_crc_def foldl.simps bytes crc32_example_original by code_simp
  show ?thesis
    using r0 p1 r1 r2 p2 by blast
qed

end
